theory Spec2Isabelle
  imports Main "HOL-Library.Word" "HOL-Library.AList"
begin

section \<open>The request planner of the query engine (api/query_engine.go)\<close>

text \<open>
  The planner chooses, for every request of a bundle, the rollup archive to read and the
  interval at which points are emitted. This theory embeds the functions of
  \<^verbatim>\<open>api/query_engine.go\<close> as HOL functions and proves properties of them.

  Conventions of the embedding:
  \<^item> Go's \<^verbatim>\<open>uint32\<close> is \<open>32 word\<close>: \<open>+\<close>, \<open>-\<close> and \<open>*\<close> wrap around, as in Go.
  \<^item> Go's \<^verbatim>\<open>int\<close> (retention fields, scores, the two limits) is \<open>int\<close>; the conversion
    \<^verbatim>\<open>uint32(x)\<close> is \<open>u32 x\<close>, the value modulo \<open>2 ^ 32\<close>. Products and sums of
    Go ints are not wrapped at \<open>2 ^ 63\<close>.
  \<^item> A function that mutates the requests it is given returns them updated; a function that
    also reports a boolean returns the pair.
  \<^item> A Go panic (a division by zero, an explicit \<^verbatim>\<open>panic\<close>) is the error value \<open>Panic\<close>.
  \<^item> The loop of the soft limit has no evident bound, so it is a partial function into
    \<open>option\<close>: \<open>None\<close> means that the call does not return.
\<close>

type_synonym u32 = "32 word"

datatype error = errUnSatisfiable | errMaxPointsPerReq | Panic

subsection \<open>Data model\<close>

text \<open>
  Modelled from the spec: the type \<^verbatim>\<open>conf.Retention\<close> and its methods
  \<^verbatim>\<open>MaxRetention\<close> and \<^verbatim>\<open>Valid\<close> are not part of the sources at hand. The spec
  gives a retention the fields \<open>seconds_per_point\<close> (a positive integer),
  \<open>number_of_points\<close> and \<open>ready_timestamp\<close>, derives \<open>max_retention\<close> from them (the
  time span the archive covers) and defines \<open>valid(from, ttl)\<close> as
  \<open>ready_timestamp \<le> from\<close> and \<open>max_retention \<ge> ttl\<close>. The comparison with the
  32-bit \<open>ttl\<close> goes through \<^verbatim>\<open>uint32(...)\<close>, as line 537 of the source does.
\<close>

record Retention =
  SecondsPerPoint :: int
  NumberOfPoints :: int
  Ready :: u32

definition u32 :: "int \<Rightarrow> u32" where
  "u32 x = word_of_int x"

definition MaxRetention :: "Retention \<Rightarrow> int" where
  "MaxRetention r = SecondsPerPoint r * NumberOfPoints r"

definition Valid :: "Retention \<Rightarrow> u32 \<Rightarrow> u32 \<Rightarrow> bool" where
  "Valid r frm ttl \<longleftrightarrow> Ready r \<le> frm \<and> ttl \<le> u32 (MaxRetention r)"

text \<open>
  Modelled from the spec: the type \<^verbatim>\<open>models.Req\<close> and its methods \<^verbatim>\<open>Plan\<close>,
  \<^verbatim>\<open>PlanNormalization\<close>, \<^verbatim>\<open>AdjustTo\<close> and \<^verbatim>\<open>PointsFetch\<close> are not part of the
  sources at hand. Of the spec's request, the fields the planner reads or writes are kept:
  the window, the native interval of the series for raw data, and the three planned fields.
  \<^item> Planning a request against archive \<open>i\<close> sets \<open>archive\<close>, derives \<open>arch_interval\<close>
    (the archive's seconds per point; for raw data, archive 0, the native interval of the
    series) and sets \<open>out_interval := arch_interval\<close>.
  \<^item> Normalisation records \<open>out_interval := interval\<close>.
  \<^item> Adjusting keeps the archive chosen and, if \<open>interval \<noteq> arch_interval\<close>, records
    \<open>out_interval := interval\<close>.
  \<^item> \<open>points_fetch\<close> is the quotient \<open>(to - from) / arch_interval\<close> rounded up. The spec's
    intervals are positive; at \<open>arch_interval = 0\<close> the formula has no meaning, and the value
    of the model there (HOL's division by zero) is used by no theorem below.
\<close>

record Req =
  From :: u32
  To :: u32
  RawInterval :: u32
  Archive :: nat
  ArchInterval :: u32
  OutInterval :: u32

definition Plan :: "nat \<Rightarrow> Retention \<Rightarrow> Req \<Rightarrow> Req" where
  "Plan i ret r =
     (let a = (if i = 0 then RawInterval r else u32 (SecondsPerPoint ret))
      in r\<lparr>Archive := i, ArchInterval := a, OutInterval := a\<rparr>)"

definition PlanNormalization :: "u32 \<Rightarrow> Req \<Rightarrow> Req" where
  "PlanNormalization interval r = r\<lparr>OutInterval := interval\<rparr>"

definition AdjustTo :: "u32 \<Rightarrow> u32 \<Rightarrow> Retention list \<Rightarrow> Req \<Rightarrow> Req" where
  "AdjustTo interval frm rets r =
     (if ArchInterval r = interval then r else PlanNormalization interval r)"

definition PointsFetch :: "Req \<Rightarrow> u32" where
  "PointsFetch r =
     (let d = To r - From r; a = ArchInterval r
      in if d mod a = 0 then d div a else d div a + 1)"

text \<open>
  Modelled from the spec: the partitioned view \<^verbatim>\<open>ReqsPlan\<close>, its halves and their methods
  \<^verbatim>\<open>HasData\<close>, \<^verbatim>\<open>OutInterval\<close>, \<^verbatim>\<open>Len\<close> and \<^verbatim>\<open>PointsFetch\<close> are not part of the
  sources at hand. A half maps a schema id to an ordered list of requests; the source ranges
  over it with an integer index that it converts with \<^verbatim>\<open>uint16(schemaID)\<close>, so a half is
  the list of its buckets, the schema id being the position. \<open>pngroups\<close> maps a PN-group
  identifier to its two halves; it is an association list, and the order of the list stands
  for the order in which Go ranges over the map, which the language leaves open.
  \<open>points_fetch()\<close> of the plan is the sum over all requests (a \<^verbatim>\<open>uint32\<close> in the source),
  \<open>out_interval()\<close> of a half is the \<open>out_interval\<close> of one of its requests (the first),
  and the length of a group is its total request count.
\<close>

type_synonym ReqsByRet = "Req list list"

record GroupData =
  mdpyes :: ReqsByRet
  mdpno :: ReqsByRet

record ReqsPlan =
  pngroups :: "(nat \<times> GroupData) list"
  single :: GroupData

definition HasData :: "ReqsByRet \<Rightarrow> bool" where
  "HasData rbr \<longleftrightarrow> (\<exists>reqs \<in> set rbr. reqs \<noteq> [])"

fun rbr_OutInterval :: "ReqsByRet \<Rightarrow> u32" where
  "rbr_OutInterval [] = 0"
| "rbr_OutInterval (reqs # rest) =
     (case reqs of [] \<Rightarrow> rbr_OutInterval rest | r # _ \<Rightarrow> OutInterval r)"

definition rbr_PointsFetch :: "ReqsByRet \<Rightarrow> u32" where
  "rbr_PointsFetch rbr = sum_list (map PointsFetch (concat rbr))"

definition gd_PointsFetch :: "GroupData \<Rightarrow> u32" where
  "gd_PointsFetch gd = rbr_PointsFetch (mdpyes gd) + rbr_PointsFetch (mdpno gd)"

definition rp_PointsFetch :: "ReqsPlan \<Rightarrow> u32" where
  "rp_PointsFetch rp =
     gd_PointsFetch (single rp) + sum_list (map (\<lambda>(g, gd). gd_PointsFetch gd) (pngroups rp))"

definition Len :: "GroupData \<Rightarrow> nat" where
  "Len gd = length (concat (mdpno gd)) + length (concat (mdpyes gd))"

text \<open>
  The retention catalogue \<^verbatim>\<open>mdata.Schemas\<close> is a parameter of the model: the list of
  retentions of each schema id. \<open>u16\<close> is the conversion \<^verbatim>\<open>uint16(schemaID)\<close>.
\<close>

type_synonym catalogue = "nat \<Rightarrow> Retention list"

definition u16 :: "nat \<Rightarrow> nat" where
  "u16 i = i mod 65536"

text \<open>
  Modelled from the spec: \<^verbatim>\<open>util.Lcm\<close> and \<^verbatim>\<open>util.AllCombinationsUint32\<close> are not part
  of the sources at hand. The first is the least common multiple of the elements of a list,
  held in a \<^verbatim>\<open>uint32\<close>; a list without elements has none, which the spec counts among
  the inconsistencies that abort the call. The second is the Cartesian product of the lists,
  one tuple for each combination, in the order of the lists.
\<close>

definition Lcm_u32 :: "u32 list \<Rightarrow> error + u32" where
  "Lcm_u32 vals =
     (if vals = [] then Inl Panic else Inr (word_of_nat (fold lcm (map unat vals) 1)))"

definition AllCombinationsUint32 :: "u32 list list \<Rightarrow> u32 list list" where
  "AllCombinationsUint32 parts = product_lists parts"

subsection \<open>Retention selection\<close>

text \<open>
  \<^verbatim>\<open>findHighestResRet\<close>: the ascending loop over the retentions, with the three result
  variables as the accumulator (\<open>None\<close> while \<^verbatim>\<open>ok\<close> is false).
\<close>

fun findHighestResRet_loop ::
  "Retention list \<Rightarrow> nat \<Rightarrow> u32 \<Rightarrow> u32 \<Rightarrow> (nat \<times> Retention) option \<Rightarrow> (nat \<times> Retention) option"
where
  "findHighestResRet_loop [] i frm ttl acc = acc"
| "findHighestResRet_loop (retMaybe # rest) i frm ttl acc =
     (if frm < Ready retMaybe then findHighestResRet_loop rest (Suc i) frm ttl acc
      else if ttl \<le> u32 (MaxRetention retMaybe) then Some (i, retMaybe)
      else findHighestResRet_loop rest (Suc i) frm ttl (Some (i, retMaybe)))"

definition findHighestResRet :: "Retention list \<Rightarrow> u32 \<Rightarrow> u32 \<Rightarrow> (nat \<times> Retention) option" where
  "findHighestResRet rets frm ttl = findHighestResRet_loop rets 0 frm ttl None"

text \<open>
  \<^verbatim>\<open>findLowestValidResForInterval\<close>: the descending loop, over the retentions paired with
  their indices, coarsest first. Go evaluates \<^verbatim>\<open>interval % uint32(ret.SecondsPerPoint)\<close>
  only for a valid retention, and panics there if the divisor is zero.
\<close>

fun findLowestValidRes_loop ::
  "(nat \<times> Retention) list \<Rightarrow> u32 \<Rightarrow> u32 \<Rightarrow> u32 \<Rightarrow> error + (nat \<times> Retention) option"
where
  "findLowestValidRes_loop [] frm ttl interval = Inr None"
| "findLowestValidRes_loop ((i, ret) # rest) frm ttl interval =
     (if Valid ret frm ttl then
        (if u32 (SecondsPerPoint ret) = 0 then Inl Panic
         else if interval mod u32 (SecondsPerPoint ret) = 0 then Inr (Some (i, ret))
         else findLowestValidRes_loop rest frm ttl interval)
      else findLowestValidRes_loop rest frm ttl interval)"

definition findLowestValidResForInterval ::
  "Retention list \<Rightarrow> u32 \<Rightarrow> u32 \<Rightarrow> u32 \<Rightarrow> error + (nat \<times> Retention) option"
where
  "findLowestValidResForInterval rets frm ttl interval =
     findLowestValidRes_loop (rev (enumerate 0 rets)) frm ttl interval"

subsection \<open>Single-schema planners\<close>

definition planHighestResSingles ::
  "catalogue \<Rightarrow> u32 \<Rightarrow> u32 \<Rightarrow> u32 \<Rightarrow> nat \<Rightarrow> Req list \<Rightarrow> bool \<times> Req list"
where
  "planHighestResSingles cat now frm to schemaID reqs =
     (let rets = cat schemaID; minTTL = now - frm
      in case findHighestResRet rets frm minTTL of
           None \<Rightarrow> (False, reqs)
         | Some (archive, ret) \<Rightarrow> (True, map (Plan archive ret) reqs))"

text \<open>
  \<^verbatim>\<open>planLowestResForMDPSingles\<close>: the descending loop plans the first request against each
  ready retention in turn and stops when it fetches at least \<^verbatim>\<open>mdp/2\<close> points. The
  accumulator holds the retention chosen so far and the first request as last planned.
\<close>

fun planLowestResForMDPSingles_loop ::
  "(nat \<times> Retention) list \<Rightarrow> u32 \<Rightarrow> u32 \<Rightarrow> (nat \<times> Retention) option \<times> Req
     \<Rightarrow> (nat \<times> Retention) option \<times> Req"
where
  "planLowestResForMDPSingles_loop [] frm mdp acc = acc"
| "planLowestResForMDPSingles_loop ((i, ret) # rest) frm mdp (chosen, req0) =
     (if frm < Ready ret then planLowestResForMDPSingles_loop rest frm mdp (chosen, req0)
      else if mdp div 2 \<le> PointsFetch (Plan i ret req0) then (Some (i, ret), Plan i ret req0)
      else planLowestResForMDPSingles_loop rest frm mdp (Some (i, ret), Plan i ret req0))"

definition planLowestResForMDPSingles ::
  "catalogue \<Rightarrow> u32 \<Rightarrow> u32 \<Rightarrow> u32 \<Rightarrow> u32 \<Rightarrow> nat \<Rightarrow> Req list \<Rightarrow> bool \<times> Req list"
where
  "planLowestResForMDPSingles cat now frm to mdp schemaID reqs =
     (case reqs of
        [] \<Rightarrow> (True, reqs)
      | req0 # others \<Rightarrow>
          (case planLowestResForMDPSingles_loop (rev (enumerate 0 (cat schemaID))) frm mdp
                  (None, req0) of
             (None, req0') \<Rightarrow> (False, req0' # others)
           | (Some (archive, ret), req0') \<Rightarrow> (True, map (Plan archive ret) (req0' # others))))"

subsection \<open>Interval-set combinatorics\<close>

definition getValidIntervals :: "catalogue \<Rightarrow> nat \<Rightarrow> u32 \<Rightarrow> u32 \<Rightarrow> u32 list \<times> bool" where
  "getValidIntervals cat schemaID frm ttl =
     (let validIntervals =
            map (\<lambda>ret. u32 (SecondsPerPoint ret)) (filter (\<lambda>ret. Valid ret frm ttl) (cat schemaID))
      in (validIntervals, validIntervals \<noteq> []))"

text \<open>
  \<^verbatim>\<open>getValidIntervalsSet\<close>: the loop over the buckets of a half, paired with their schema
  ids; the accumulator is the list of distinct interval lists found so far.
\<close>

fun getValidIntervalsSet_loop ::
  "catalogue \<Rightarrow> (nat \<times> Req list) list \<Rightarrow> u32 \<Rightarrow> u32 \<Rightarrow> u32 list list \<Rightarrow> u32 list list \<times> bool"
where
  "getValidIntervalsSet_loop cat [] frm ttl validIntervalsSet = (validIntervalsSet, True)"
| "getValidIntervalsSet_loop cat ((schemaID, reqs) # rest) frm ttl validIntervalsSet =
     (if reqs = [] then getValidIntervalsSet_loop cat rest frm ttl validIntervalsSet
      else case getValidIntervals cat (u16 schemaID) frm ttl of
             (validIntervals, ok) \<Rightarrow>
               if \<not> ok then ([], False)
               else if validIntervals \<in> set validIntervalsSet
                 then getValidIntervalsSet_loop cat rest frm ttl validIntervalsSet
               else getValidIntervalsSet_loop cat rest frm ttl
                      (validIntervalsSet @ [validIntervals]))"

definition getValidIntervalsSet ::
  "catalogue \<Rightarrow> ReqsByRet \<Rightarrow> u32 \<Rightarrow> u32 \<Rightarrow> u32 list list \<times> bool"
where
  "getValidIntervalsSet cat rbr frm ttl =
     getValidIntervalsSet_loop cat (enumerate 0 rbr) frm ttl []"

text \<open>
  The score of a candidate interval in \<^verbatim>\<open>getLowestResFromSetMatching\<close>: the inner loop
  over the buckets, which panics when a schema has no valid retention for the candidate.
\<close>

fun score_loop ::
  "catalogue \<Rightarrow> (nat \<times> Req list) list \<Rightarrow> u32 \<Rightarrow> u32 \<Rightarrow> u32 \<Rightarrow> int \<Rightarrow> error + int"
where
  "score_loop cat [] frm ttl candidateInterval score = Inr score"
| "score_loop cat ((schemaID, reqs) # rest) frm ttl candidateInterval score =
     (if reqs = [] then score_loop cat rest frm ttl candidateInterval score
      else case findLowestValidResForInterval (cat (u16 schemaID)) frm ttl candidateInterval of
             Inl e \<Rightarrow> Inl e
           | Inr None \<Rightarrow> Inl Panic
           | Inr (Some (i, ret)) \<Rightarrow>
               score_loop cat rest frm ttl candidateInterval
                 (score + int (length reqs) * SecondsPerPoint ret))"

text \<open>
  The outer loop over the combinations; the accumulator is
  \<^verbatim>\<open>(maxScore, lowestInterval, returnInterval)\<close>.
\<close>

fun getLowestRes_loop ::
  "catalogue \<Rightarrow> ReqsByRet \<Rightarrow> u32 \<Rightarrow> u32 \<Rightarrow> u32 \<Rightarrow> u32 \<Rightarrow> u32 list list
     \<Rightarrow> int \<times> u32 \<times> u32 \<Rightarrow> error + (int \<times> u32 \<times> u32)"
where
  "getLowestRes_loop cat rbr frm ttl minInterval maxInterval [] acc = Inr acc"
| "getLowestRes_loop cat rbr frm ttl minInterval maxInterval (combo # rest)
       (maxScore, lowestInterval, returnInterval) =
     (case Lcm_u32 combo of
        Inl e \<Rightarrow> Inl e
      | Inr candidateInterval \<Rightarrow>
          (let lowestInterval' =
                 (if candidateInterval < lowestInterval then candidateInterval else lowestInterval)
           in if candidateInterval < minInterval \<or> maxInterval < candidateInterval
              then getLowestRes_loop cat rbr frm ttl minInterval maxInterval rest
                     (maxScore, lowestInterval', returnInterval)
              else case score_loop cat (enumerate 0 rbr) frm ttl candidateInterval 0 of
                     Inl e \<Rightarrow> Inl e
                   | Inr score \<Rightarrow>
                       if maxScore < score
                       then getLowestRes_loop cat rbr frm ttl minInterval maxInterval rest
                              (score, lowestInterval', candidateInterval)
                       else getLowestRes_loop cat rbr frm ttl minInterval maxInterval rest
                              (maxScore, lowestInterval', returnInterval)))"

definition getLowestResFromSetMatching ::
  "catalogue \<Rightarrow> ReqsByRet \<Rightarrow> u32 \<Rightarrow> u32 \<Rightarrow> u32 \<Rightarrow> u32 \<Rightarrow> u32 list list \<Rightarrow> error + u32"
where
  "getLowestResFromSetMatching cat rbr frm ttl minInterval maxInterval intervalsSet =
     (case getLowestRes_loop cat rbr frm ttl minInterval maxInterval
             (AllCombinationsUint32 intervalsSet) (0, - 1, 0) of
        Inl e \<Rightarrow> Inl e
      | Inr (maxScore, lowestInterval, returnInterval) \<Rightarrow>
          Inr (if returnInterval = 0 then lowestInterval else returnInterval))"

fun getHighestRes_loop :: "u32 \<Rightarrow> u32 \<Rightarrow> u32 list list \<Rightarrow> u32 \<Rightarrow> error + u32" where
  "getHighestRes_loop minInterval maxInterval [] interval = Inr interval"
| "getHighestRes_loop minInterval maxInterval (combo # rest) interval =
     (case Lcm_u32 combo of
        Inl e \<Rightarrow> Inl e
      | Inr candidateInterval \<Rightarrow>
          if candidateInterval < minInterval \<or> maxInterval < candidateInterval
          then getHighestRes_loop minInterval maxInterval rest interval
          else if interval = 0 \<or> candidateInterval < interval
          then getHighestRes_loop minInterval maxInterval rest candidateInterval
          else getHighestRes_loop minInterval maxInterval rest interval)"

definition getHighestResFromSetMatching ::
  "u32 \<Rightarrow> u32 \<Rightarrow> u32 \<Rightarrow> u32 \<Rightarrow> u32 list list \<Rightarrow> error + u32"
where
  "getHighestResFromSetMatching frm ttl minInterval maxInterval intervalsSet =
     getHighestRes_loop minInterval maxInterval (AllCombinationsUint32 intervalsSet) 0"

subsection \<open>Multi-schema planners\<close>

text \<open>
  \<^verbatim>\<open>planToMulti\<close>: every non-empty bucket is planned to the coarsest valid retention
  that divides the interval, and normalised where its archive interval differs. The source
  panics when a bucket has no such retention.
\<close>

definition planToMulti_req :: "nat \<Rightarrow> Retention \<Rightarrow> u32 \<Rightarrow> Req \<Rightarrow> Req" where
  "planToMulti_req archive ret interval req =
     (let req' = Plan archive ret req
      in if interval \<noteq> ArchInterval req' then PlanNormalization interval req' else req')"

fun planToMulti_loop ::
  "catalogue \<Rightarrow> u32 \<Rightarrow> u32 \<Rightarrow> u32 \<Rightarrow> (nat \<times> Req list) list \<Rightarrow> error + ReqsByRet"
where
  "planToMulti_loop cat frm minTTL interval [] = Inr []"
| "planToMulti_loop cat frm minTTL interval ((schemaID, reqs) # rest) =
     (if reqs = [] then
        (case planToMulti_loop cat frm minTTL interval rest of
           Inl e \<Rightarrow> Inl e
         | Inr rest' \<Rightarrow> Inr (reqs # rest'))
      else case findLowestValidResForInterval (cat (u16 schemaID)) frm minTTL interval of
             Inl e \<Rightarrow> Inl e
           | Inr None \<Rightarrow> Inl Panic
           | Inr (Some (archive, ret)) \<Rightarrow>
               (case planToMulti_loop cat frm minTTL interval rest of
                  Inl e \<Rightarrow> Inl e
                | Inr rest' \<Rightarrow> Inr (map (planToMulti_req archive ret interval) reqs # rest')))"

definition planToMulti ::
  "catalogue \<Rightarrow> u32 \<Rightarrow> u32 \<Rightarrow> u32 \<Rightarrow> u32 \<Rightarrow> ReqsByRet \<Rightarrow> error + ReqsByRet"
where
  "planToMulti cat now frm to interval rbr =
     planToMulti_loop cat frm (now - frm) interval (enumerate 0 rbr)"

text \<open>
  \<^verbatim>\<open>planHighestResMulti\<close>: the first loop plans every bucket to its finest retention and
  collects the distinct archive intervals of the planned requests in the order in which they
  appear; it returns false at the first bucket without a ready retention, the buckets before
  it already planned. The second loop adjusts every request to the common interval.
\<close>

definition seenIntervals_add :: "Req list \<Rightarrow> u32 list \<Rightarrow> u32 list" where
  "seenIntervals_add reqs listIntervals =
     fold (\<lambda>req l. if ArchInterval req \<in> set l then l else l @ [ArchInterval req])
       reqs listIntervals"

fun planHighestResMulti_loop ::
  "catalogue \<Rightarrow> u32 \<Rightarrow> u32 \<Rightarrow> (nat \<times> Req list) list \<Rightarrow> u32 list \<Rightarrow> bool \<times> ReqsByRet \<times> u32 list"
where
  "planHighestResMulti_loop cat frm minTTL [] listIntervals = (True, [], listIntervals)"
| "planHighestResMulti_loop cat frm minTTL ((schemaID, reqs) # rest) listIntervals =
     (if reqs = [] then
        (case planHighestResMulti_loop cat frm minTTL rest listIntervals of
           (ok, rest', l) \<Rightarrow> (ok, reqs # rest', l))
      else case findHighestResRet (cat (u16 schemaID)) frm minTTL of
             None \<Rightarrow> (False, reqs # map snd rest, listIntervals)
           | Some (archive, ret) \<Rightarrow>
               (let reqs' = map (Plan archive ret) reqs
                in case planHighestResMulti_loop cat frm minTTL rest
                          (seenIntervals_add reqs' listIntervals) of
                     (ok, rest', l) \<Rightarrow> (ok, reqs' # rest', l)))"

definition planHighestResMulti ::
  "catalogue \<Rightarrow> u32 \<Rightarrow> u32 \<Rightarrow> u32 \<Rightarrow> ReqsByRet \<Rightarrow> error + (bool \<times> ReqsByRet)"
where
  "planHighestResMulti cat now frm to rbr =
     (case planHighestResMulti_loop cat frm (now - frm) (enumerate 0 rbr) [] of
        (ok, rbr', listIntervals) \<Rightarrow>
          if \<not> ok then Inr (False, rbr')
          else case Lcm_u32 listIntervals of
                 Inl e \<Rightarrow> Inl e
               | Inr interval \<Rightarrow>
                   Inr (True,
                     map (\<lambda>(schemaID, reqs). map (AdjustTo interval frm (cat (u16 schemaID))) reqs)
                       (enumerate 0 rbr')))"

text \<open>
  \<^verbatim>\<open>planLowestResForMDPMulti\<close>: the division by \<^verbatim>\<open>mdp\<close> comes first and panics when
  \<^verbatim>\<open>mdp\<close> is zero; \<^verbatim>\<open>2 * (to - from)\<close> wraps around as a \<^verbatim>\<open>uint32\<close>.
\<close>

definition planLowestResForMDPMulti ::
  "catalogue \<Rightarrow> u32 \<Rightarrow> u32 \<Rightarrow> u32 \<Rightarrow> u32 \<Rightarrow> ReqsByRet \<Rightarrow> error + (bool \<times> ReqsByRet)"
where
  "planLowestResForMDPMulti cat now frm to mdp rbr =
     (let minTTL = now - frm
      in if mdp = 0 then Inl Panic
         else let maxInterval = (2 * (to - frm)) div mdp
              in case getValidIntervalsSet cat rbr frm minTTL of
                   (validIntervalsSet, ok) \<Rightarrow>
                     if \<not> ok then Inr (False, rbr)
                     else case getLowestResFromSetMatching cat rbr frm minTTL 0 maxInterval
                                 validIntervalsSet of
                            Inl e \<Rightarrow> Inl e
                          | Inr interval \<Rightarrow>
                              (case planToMulti cat now frm to interval rbr of
                                 Inl e \<Rightarrow> Inl e
                               | Inr rbr' \<Rightarrow> Inr (True, rbr')))"

subsection \<open>Reduction pass\<close>

text \<open>
  \<^verbatim>\<open>reduceResSingles\<close>: the ascending loop stops at the first valid retention that is
  coarser than the current output interval.
\<close>

fun reduceResSingles_loop ::
  "(nat \<times> Retention) list \<Rightarrow> u32 \<Rightarrow> u32 \<Rightarrow> u32 \<Rightarrow> (nat \<times> Retention) option"
where
  "reduceResSingles_loop [] frm minTTL curOut = None"
| "reduceResSingles_loop ((i, retMaybe) # rest) frm minTTL curOut =
     (if Valid retMaybe frm minTTL \<and> curOut < u32 (SecondsPerPoint retMaybe)
      then Some (i, retMaybe)
      else reduceResSingles_loop rest frm minTTL curOut)"

definition reduceResSingles ::
  "catalogue \<Rightarrow> u32 \<Rightarrow> u32 \<Rightarrow> u32 \<Rightarrow> nat \<Rightarrow> Req list \<Rightarrow> bool \<times> Req list"
where
  "reduceResSingles cat now frm to schemaID reqs =
     (case reqs of
        [] \<Rightarrow> (True, reqs)
      | req0 # others \<Rightarrow>
          (let curOut = OutInterval req0; minTTL = now - frm
           in case reduceResSingles_loop (enumerate 0 (cat schemaID)) frm minTTL curOut of
                None \<Rightarrow> (False, reqs)
              | Some (archive, ret) \<Rightarrow> (True, map (Plan archive ret) reqs)))"

definition reduceResMulti ::
  "catalogue \<Rightarrow> u32 \<Rightarrow> u32 \<Rightarrow> u32 \<Rightarrow> ReqsByRet \<Rightarrow> error + (bool \<times> ReqsByRet)"
where
  "reduceResMulti cat now frm to rbr =
     (let curOut = rbr_OutInterval rbr; minTTL = now - frm
      in case getValidIntervalsSet cat rbr frm minTTL of
           (validIntervalss, ok) \<Rightarrow>
             if \<not> ok then Inr (False, rbr)
             else case getHighestResFromSetMatching frm minTTL (curOut + 1) (- 1)
                         validIntervalss of
                    Inl e \<Rightarrow> Inl e
                  | Inr interval \<Rightarrow>
                      if interval = 0 then Inr (False, rbr)
                      else case planToMulti cat now frm to interval rbr of
                             Inl e \<Rightarrow> Inl e
                           | Inr rbr' \<Rightarrow> Inr (True, rbr'))"

subsection \<open>The orchestrator\<close>

text \<open>
  Step 1 of \<^verbatim>\<open>planRequests\<close>: the initial plan of every PN-group (its MDP-optimizable
  half, then the other one), of the MDP-optimizable singles and of the other singles.
  The groups do not share requests, so the order in which the map is ranged over does not
  show in the result.
\<close>

definition planRequests_pngroup ::
  "catalogue \<Rightarrow> u32 \<Rightarrow> u32 \<Rightarrow> u32 \<Rightarrow> u32 \<Rightarrow> GroupData \<Rightarrow> error + GroupData"
where
  "planRequests_pngroup cat now frm to planMDP gd =
     (case (if HasData (mdpyes gd) then
              (case planLowestResForMDPMulti cat now frm to planMDP (mdpyes gd) of
                 Inl e \<Rightarrow> Inl e
               | Inr (ok, rbr) \<Rightarrow>
                   if \<not> ok then Inl errUnSatisfiable else Inr (gd\<lparr>mdpyes := rbr\<rparr>))
            else Inr gd) of
        Inl e \<Rightarrow> Inl e
      | Inr gd' \<Rightarrow>
          if HasData (mdpno gd') then
            (case planHighestResMulti cat now frm to (mdpno gd') of
               Inl e \<Rightarrow> Inl e
             | Inr (ok, rbr) \<Rightarrow>
                 if \<not> ok then Inl errUnSatisfiable else Inr (gd'\<lparr>mdpno := rbr\<rparr>))
          else Inr gd')"

fun planRequests_pngroups ::
  "catalogue \<Rightarrow> u32 \<Rightarrow> u32 \<Rightarrow> u32 \<Rightarrow> u32 \<Rightarrow> (nat \<times> GroupData) list
     \<Rightarrow> error + (nat \<times> GroupData) list"
where
  "planRequests_pngroups cat now frm to planMDP [] = Inr []"
| "planRequests_pngroups cat now frm to planMDP ((groupID, gd) # rest) =
     (case planRequests_pngroup cat now frm to planMDP gd of
        Inl e \<Rightarrow> Inl e
      | Inr gd' \<Rightarrow>
          (case planRequests_pngroups cat now frm to planMDP rest of
             Inl e \<Rightarrow> Inl e
           | Inr rest' \<Rightarrow> Inr ((groupID, gd') # rest')))"

fun planRequests_single_mdpyes ::
  "catalogue \<Rightarrow> u32 \<Rightarrow> u32 \<Rightarrow> u32 \<Rightarrow> u32 \<Rightarrow> (nat \<times> Req list) list \<Rightarrow> error + ReqsByRet"
where
  "planRequests_single_mdpyes cat now frm to planMDP [] = Inr []"
| "planRequests_single_mdpyes cat now frm to planMDP ((schemaID, reqs) # rest) =
     (if length reqs = 0 then
        (case planRequests_single_mdpyes cat now frm to planMDP rest of
           Inl e \<Rightarrow> Inl e
         | Inr rest' \<Rightarrow> Inr (reqs # rest'))
      else case planLowestResForMDPSingles cat now frm to planMDP (u16 schemaID) reqs of
             (ok, reqs') \<Rightarrow>
               if \<not> ok then Inl errUnSatisfiable
               else (case planRequests_single_mdpyes cat now frm to planMDP rest of
                       Inl e \<Rightarrow> Inl e
                     | Inr rest' \<Rightarrow> Inr (reqs' # rest')))"

fun planRequests_single_mdpno ::
  "catalogue \<Rightarrow> u32 \<Rightarrow> u32 \<Rightarrow> u32 \<Rightarrow> (nat \<times> Req list) list \<Rightarrow> error + ReqsByRet"
where
  "planRequests_single_mdpno cat now frm to [] = Inr []"
| "planRequests_single_mdpno cat now frm to ((schemaID, reqs) # rest) =
     (if length reqs = 0 then
        (case planRequests_single_mdpno cat now frm to rest of
           Inl e \<Rightarrow> Inl e
         | Inr rest' \<Rightarrow> Inr (reqs # rest'))
      else case planHighestResSingles cat now frm to (u16 schemaID) reqs of
             (ok, reqs') \<Rightarrow>
               if \<not> ok then Inl errUnSatisfiable
               else (case planRequests_single_mdpno cat now frm to rest of
                       Inl e \<Rightarrow> Inl e
                     | Inr rest' \<Rightarrow> Inr (reqs' # rest')))"

definition planRequests_initial ::
  "catalogue \<Rightarrow> u32 \<Rightarrow> u32 \<Rightarrow> u32 \<Rightarrow> ReqsPlan \<Rightarrow> u32 \<Rightarrow> error + ReqsPlan"
where
  "planRequests_initial cat now frm to rp planMDP =
     (case planRequests_pngroups cat now frm to planMDP (pngroups rp) of
        Inl e \<Rightarrow> Inl e
      | Inr groups' \<Rightarrow>
          (case planRequests_single_mdpyes cat now frm to planMDP
                  (enumerate 0 (mdpyes (single rp))) of
             Inl e \<Rightarrow> Inl e
           | Inr yes' \<Rightarrow>
               (case planRequests_single_mdpno cat now frm to
                       (enumerate 0 (mdpno (single rp))) of
                  Inl e \<Rightarrow> Inl e
                | Inr no' \<Rightarrow>
                    Inr (rp\<lparr>pngroups := groups', single := \<lparr>mdpyes = yes', mdpno = no'\<rparr>\<rparr>))))"

text \<open>
  Step 2, the soft limit. \<^verbatim>\<open>pngroupsByLen\<close> lists the group identifiers by ascending
  length of the group (\<^verbatim>\<open>sort.Slice\<close> leaves the order of groups of equal length open;
  the model keeps their order). A lookup in the Go map gives the zero value for a key that
  is absent. The reductions mutate the requests in place, so the plan is updated at the
  group, or at the bucket, that was reduced.

  One pass of the loop body is a pair of loops, each of which can jump to
  \<^verbatim>\<open>HonoredSoft\<close>; they return whether they jumped, the plan and \<^verbatim>\<open>progress\<close>.
\<close>

definition lookup_group :: "(nat \<times> GroupData) list \<Rightarrow> nat \<Rightarrow> GroupData" where
  "lookup_group groups groupID =
     (case map_of groups groupID of None \<Rightarrow> \<lparr>mdpyes = [], mdpno = []\<rparr> | Some data \<Rightarrow> data)"

definition pngroupsByLen :: "ReqsPlan \<Rightarrow> nat list" where
  "pngroupsByLen rp =
     sort_key (\<lambda>groupID. Len (lookup_group (pngroups rp) groupID)) (map fst (pngroups rp))"

fun planRequests_reduce_pngroups ::
  "catalogue \<Rightarrow> u32 \<Rightarrow> u32 \<Rightarrow> u32 \<Rightarrow> int \<Rightarrow> nat list \<Rightarrow> ReqsPlan \<times> bool
     \<Rightarrow> error + (bool \<times> ReqsPlan \<times> bool)"
where
  "planRequests_reduce_pngroups cat now frm to mpprSoft [] (rp, progress) =
     Inr (False, rp, progress)"
| "planRequests_reduce_pngroups cat now frm to mpprSoft (groupID # rest) (rp, progress) =
     (let data = lookup_group (pngroups rp) groupID
      in if 0 < length (mdpno data) then
           (case reduceResMulti cat now frm to (mdpno data) of
              Inl e \<Rightarrow> Inl e
            | Inr (ok, rbr) \<Rightarrow>
                (let rp' = rp\<lparr>pngroups :=
                             AList.update groupID (data\<lparr>mdpno := rbr\<rparr>) (pngroups rp)\<rparr>
                 in if ok then
                      (if rp_PointsFetch rp' \<le> u32 mpprSoft then Inr (True, rp', True)
                       else planRequests_reduce_pngroups cat now frm to mpprSoft rest (rp', True))
                    else planRequests_reduce_pngroups cat now frm to mpprSoft rest
                           (rp', progress)))
         else planRequests_reduce_pngroups cat now frm to mpprSoft rest (rp, progress))"

fun planRequests_reduce_singles ::
  "catalogue \<Rightarrow> u32 \<Rightarrow> u32 \<Rightarrow> u32 \<Rightarrow> int \<Rightarrow> (nat \<times> Req list) list \<Rightarrow> ReqsPlan \<times> bool
     \<Rightarrow> error + (bool \<times> ReqsPlan \<times> bool)"
where
  "planRequests_reduce_singles cat now frm to mpprSoft [] (rp, progress) =
     Inr (False, rp, progress)"
| "planRequests_reduce_singles cat now frm to mpprSoft ((schemaID, reqs) # rest) (rp, progress) =
     (if 0 < length reqs then
        (case reduceResSingles cat now frm to (u16 schemaID) reqs of
           (ok, reqs') \<Rightarrow>
             (let rp' = rp\<lparr>single :=
                          (single rp)\<lparr>mdpno := (mdpno (single rp))[schemaID := reqs']\<rparr>\<rparr>
              in if ok then
                   (if rp_PointsFetch rp' \<le> u32 mpprSoft then Inr (True, rp', True)
                    else planRequests_reduce_singles cat now frm to mpprSoft rest (rp', True))
                 else planRequests_reduce_singles cat now frm to mpprSoft rest (rp', progress)))
      else planRequests_reduce_singles cat now frm to mpprSoft rest (rp, progress))"

definition planRequests_pass ::
  "catalogue \<Rightarrow> u32 \<Rightarrow> u32 \<Rightarrow> u32 \<Rightarrow> int \<Rightarrow> nat list \<Rightarrow> ReqsPlan
     \<Rightarrow> error + (bool \<times> ReqsPlan \<times> bool)"
where
  "planRequests_pass cat now frm to mpprSoft groupIDs rp =
     (case planRequests_reduce_pngroups cat now frm to mpprSoft groupIDs (rp, False) of
        Inl e \<Rightarrow> Inl e
      | Inr (honored, rp', progress) \<Rightarrow>
          if honored then Inr (True, rp', progress)
          else planRequests_reduce_singles cat now frm to mpprSoft
                 (enumerate 0 (mdpno (single rp'))) (rp', progress))"

text \<open>
  The loop \<^verbatim>\<open>for rp.PointsFetch() > uint32(mpprSoft) && progress\<close>. Nothing in the
  source bounds the number of its passes, so the model is a partial function: \<open>None\<close> is
  the loop that never ends.
\<close>

partial_function (option) planRequests_soft ::
  "catalogue \<Rightarrow> u32 \<Rightarrow> u32 \<Rightarrow> u32 \<Rightarrow> int \<Rightarrow> nat list \<Rightarrow> ReqsPlan \<Rightarrow> bool
     \<Rightarrow> (error + ReqsPlan) option"
where
  "planRequests_soft cat now frm to mpprSoft groupIDs rp progress =
     (if u32 mpprSoft < rp_PointsFetch rp \<and> progress then
        (case planRequests_pass cat now frm to mpprSoft groupIDs rp of
           Inl e \<Rightarrow> Some (Inl e)
         | Inr (honored, rp', progress') \<Rightarrow>
             if honored then Some (Inr rp')
             else planRequests_soft cat now frm to mpprSoft groupIDs rp' progress')
      else Some (Inr rp))"

declare planRequests_soft.simps [code]

text \<open>
  \<^verbatim>\<open>planRequests\<close>, on the partitioned view that \<^verbatim>\<open>NewReqsPlan\<close> builds from the
  request map. \<open>planRequests_steps12\<close> is the function up to the label
  \<^verbatim>\<open>HonoredSoft\<close>: the initial plan and the soft limit. \<open>planRequests\<close> adds the hard
  limit. Step 4 of the source only reports metrics and is left out. The result is \<open>None\<close>
  when the call does not return, \<open>Some (Inl e)\<close> for an error and \<open>Some (Inr rp)\<close> for a
  plan.
\<close>

definition planRequests_steps12 ::
  "catalogue \<Rightarrow> u32 \<Rightarrow> u32 \<Rightarrow> u32 \<Rightarrow> ReqsPlan \<Rightarrow> u32 \<Rightarrow> int \<Rightarrow> (error + ReqsPlan) option"
where
  "planRequests_steps12 cat now frm to reqs planMDP mpprSoft =
     (case planRequests_initial cat now frm to reqs planMDP of
        Inl e \<Rightarrow> Some (Inl e)
      | Inr rp \<Rightarrow>
          if 0 < mpprSoft
          then planRequests_soft cat now frm to mpprSoft (pngroupsByLen rp) rp True
          else Some (Inr rp))"

definition planRequests ::
  "catalogue \<Rightarrow> u32 \<Rightarrow> u32 \<Rightarrow> u32 \<Rightarrow> ReqsPlan \<Rightarrow> u32 \<Rightarrow> int \<Rightarrow> int
     \<Rightarrow> (error + ReqsPlan) option"
where
  "planRequests cat now frm to reqs planMDP mpprSoft mpprHard =
     (case planRequests_steps12 cat now frm to reqs planMDP mpprSoft of
        None \<Rightarrow> None
      | Some (Inl e) \<Rightarrow> Some (Inl e)
      | Some (Inr rp) \<Rightarrow>
          if 0 < mpprHard \<and> mpprHard < uint (rp_PointsFetch rp)
          then Some (Inl errMaxPointsPerReq)
          else Some (Inr rp))"

subsection \<open>Properties used in the statements\<close>

text \<open>
  A retention divides an interval validly when it is valid for the window and its seconds
  per point divide the interval: the test of \<^verbatim>\<open>findLowestValidResForInterval\<close>.
\<close>

definition divides_valid :: "u32 \<Rightarrow> u32 \<Rightarrow> u32 \<Rightarrow> Retention \<Rightarrow> bool" where
  "divides_valid frm ttl interval ret \<longleftrightarrow>
     Valid ret frm ttl \<and> interval mod u32 (SecondsPerPoint ret) = 0"

text \<open>
  The retention chosen for a request of a schema is ready when the archive index of the
  request points into the retention list of the schema, at a retention whose ready timestamp
  is not after the start of the window. A half is ready when each of its requests is, a plan
  when each of its halves is. A half has a ready retention for each of its requests when the
  schema of every bucket that is not empty has a retention that is ready.
\<close>

definition req_ready :: "catalogue \<Rightarrow> u32 \<Rightarrow> nat \<Rightarrow> Req \<Rightarrow> bool" where
  "req_ready cat frm schemaID req \<longleftrightarrow>
     Archive req < length (cat (u16 schemaID))
     \<and> Ready (cat (u16 schemaID) ! Archive req) \<le> frm"

definition rbr_ready :: "catalogue \<Rightarrow> u32 \<Rightarrow> ReqsByRet \<Rightarrow> bool" where
  "rbr_ready cat frm rbr \<longleftrightarrow>
     (\<forall>schemaID < length rbr. \<forall>req \<in> set (rbr ! schemaID). req_ready cat frm schemaID req)"

definition gd_ready :: "catalogue \<Rightarrow> u32 \<Rightarrow> GroupData \<Rightarrow> bool" where
  "gd_ready cat frm gd \<longleftrightarrow> rbr_ready cat frm (mdpyes gd) \<and> rbr_ready cat frm (mdpno gd)"

definition plan_ready :: "catalogue \<Rightarrow> u32 \<Rightarrow> ReqsPlan \<Rightarrow> bool" where
  "plan_ready cat frm rp \<longleftrightarrow>
     gd_ready cat frm (single rp) \<and> (\<forall>(groupID, gd) \<in> set (pngroups rp). gd_ready cat frm gd)"

definition has_ready :: "catalogue \<Rightarrow> u32 \<Rightarrow> ReqsByRet \<Rightarrow> bool" where
  "has_ready cat frm rbr \<longleftrightarrow>
     (\<forall>schemaID < length rbr. rbr ! schemaID \<noteq> []
        \<longrightarrow> (\<exists>ret \<in> set (cat (u16 schemaID)). Ready ret \<le> frm))"

definition gd_has_ready :: "catalogue \<Rightarrow> u32 \<Rightarrow> GroupData \<Rightarrow> bool" where
  "gd_has_ready cat frm gd \<longleftrightarrow> has_ready cat frm (mdpyes gd) \<and> has_ready cat frm (mdpno gd)"

definition plan_has_ready :: "catalogue \<Rightarrow> u32 \<Rightarrow> ReqsPlan \<Rightarrow> bool" where
  "plan_has_ready cat frm rp \<longleftrightarrow>
     gd_has_ready cat frm (single rp)
     \<and> (\<forall>(groupID, gd) \<in> set (pngroups rp). gd_has_ready cat frm gd)"

text \<open>
  The retention chosen for a request is valid when the archive index points at a retention
  that is valid for the window and the time to live; it is valid unless none is when, failing
  that, the schema has no valid retention at all. In a plan, the first holds of the
  MDP-optimizable halves of the PN-groups and the second of the halves that are not
  MDP-optimizable, of the PN-groups and of the singles.
\<close>

definition req_valid :: "catalogue \<Rightarrow> u32 \<Rightarrow> u32 \<Rightarrow> nat \<Rightarrow> Req \<Rightarrow> bool" where
  "req_valid cat frm ttl schemaID req \<longleftrightarrow>
     Archive req < length (cat (u16 schemaID))
     \<and> Valid (cat (u16 schemaID) ! Archive req) frm ttl"

definition req_valid_unless_none :: "catalogue \<Rightarrow> u32 \<Rightarrow> u32 \<Rightarrow> nat \<Rightarrow> Req \<Rightarrow> bool" where
  "req_valid_unless_none cat frm ttl schemaID req \<longleftrightarrow>
     Archive req < length (cat (u16 schemaID))
     \<and> (Valid (cat (u16 schemaID) ! Archive req) frm ttl
          \<or> (\<forall>ret \<in> set (cat (u16 schemaID)). \<not> Valid ret frm ttl))"

definition rbr_valid :: "catalogue \<Rightarrow> u32 \<Rightarrow> u32 \<Rightarrow> ReqsByRet \<Rightarrow> bool" where
  "rbr_valid cat frm ttl rbr \<longleftrightarrow>
     (\<forall>schemaID < length rbr. \<forall>req \<in> set (rbr ! schemaID). req_valid cat frm ttl schemaID req)"

definition rbr_valid_unless_none :: "catalogue \<Rightarrow> u32 \<Rightarrow> u32 \<Rightarrow> ReqsByRet \<Rightarrow> bool" where
  "rbr_valid_unless_none cat frm ttl rbr \<longleftrightarrow>
     (\<forall>schemaID < length rbr. \<forall>req \<in> set (rbr ! schemaID).
        req_valid_unless_none cat frm ttl schemaID req)"

definition plan_valid_where_possible :: "catalogue \<Rightarrow> u32 \<Rightarrow> u32 \<Rightarrow> ReqsPlan \<Rightarrow> bool" where
  "plan_valid_where_possible cat frm ttl rp \<longleftrightarrow>
     rbr_valid_unless_none cat frm ttl (mdpno (single rp))
     \<and> (\<forall>(groupID, gd) \<in> set (pngroups rp).
           rbr_valid cat frm ttl (mdpyes gd) \<and> rbr_valid_unless_none cat frm ttl (mdpno gd))"

text \<open>
  A half has a valid retention for each of its requests when the schema of every bucket that
  is not empty has a retention that is valid for the window and the time to live. A bundle can
  be satisfied when every bucket that holds requests has a ready retention and, in the
  MDP-optimizable half of every PN-group, a valid one.
\<close>

definition has_valid :: "catalogue \<Rightarrow> u32 \<Rightarrow> u32 \<Rightarrow> ReqsByRet \<Rightarrow> bool" where
  "has_valid cat frm ttl rbr \<longleftrightarrow>
     (\<forall>schemaID < length rbr. rbr ! schemaID \<noteq> []
        \<longrightarrow> (\<exists>ret \<in> set (cat (u16 schemaID)). Valid ret frm ttl))"

definition plan_satisfiable :: "catalogue \<Rightarrow> u32 \<Rightarrow> u32 \<Rightarrow> ReqsPlan \<Rightarrow> bool" where
  "plan_satisfiable cat frm ttl rp \<longleftrightarrow>
     plan_has_ready cat frm rp
     \<and> (\<forall>(groupID, gd) \<in> set (pngroups rp). has_valid cat frm ttl (mdpyes gd))"

text \<open>
  The requests of a half share an output interval; the halves of every PN-group of a plan do.
\<close>

definition same_out :: "ReqsByRet \<Rightarrow> bool" where
  "same_out rbr \<longleftrightarrow> (\<exists>interval. \<forall>reqs \<in> set rbr. \<forall>req \<in> set reqs. OutInterval req = interval)"

definition groups_same_out :: "ReqsPlan \<Rightarrow> bool" where
  "groups_same_out rp \<longleftrightarrow>
     (\<forall>(groupID, gd) \<in> set (pngroups rp). same_out (mdpyes gd) \<and> same_out (mdpno gd))"

text \<open>
  The score of a candidate interval in the spec's words: the sum, over the schemas, of the
  number of requests of the schema times the seconds per point of the archive chosen for it,
  which is the one that \<^verbatim>\<open>findLowestValidResForInterval\<close> finds for the candidate. A
  schema without requests contributes nothing.
\<close>

definition chosen_spp :: "catalogue \<Rightarrow> u32 \<Rightarrow> u32 \<Rightarrow> u32 \<Rightarrow> nat \<Rightarrow> int" where
  "chosen_spp cat frm ttl interval schemaID =
     (case findLowestValidResForInterval (cat (u16 schemaID)) frm ttl interval of
        Inr (Some (i, ret)) \<Rightarrow> SecondsPerPoint ret
      | _ \<Rightarrow> 0)"

definition score_spec :: "catalogue \<Rightarrow> ReqsByRet \<Rightarrow> u32 \<Rightarrow> u32 \<Rightarrow> u32 \<Rightarrow> int" where
  "score_spec cat rbr frm ttl interval =
     sum_list (map (\<lambda>(schemaID, reqs). int (length reqs) * chosen_spp cat frm ttl interval schemaID)
                 (enumerate 0 rbr))"

text \<open>
  A candidate interval is supported by a half when the schema of every bucket that is not
  empty has a retention that is valid and whose seconds per point divide the candidate: the
  condition under which the score of the candidate is defined.
\<close>

definition supported :: "catalogue \<Rightarrow> ReqsByRet \<Rightarrow> u32 \<Rightarrow> u32 \<Rightarrow> u32 \<Rightarrow> bool" where
  "supported cat rbr frm ttl c \<longleftrightarrow>
     (\<forall>schemaID < length rbr. rbr ! schemaID \<noteq> []
        \<longrightarrow> (\<exists>ret \<in> set (cat (u16 schemaID)). divides_valid frm ttl c ret))"

text \<open>The range of a selection.\<close>

definition in_range :: "u32 \<Rightarrow> u32 \<Rightarrow> u32 \<Rightarrow> bool" where
  "in_range minInterval maxInterval c \<longleftrightarrow> minInterval \<le> c \<and> c \<le> maxInterval"

text \<open>
  The candidates of the two selections: the least common multiple of each combination, in
  the order of the combinations.
\<close>

definition lcm_val :: "u32 list \<Rightarrow> u32" where
  "lcm_val vals = word_of_nat (fold lcm (map unat vals) 1)"

definition lcm_candidates :: "u32 list list \<Rightarrow> u32 list" where
  "lcm_candidates intervalsSet = map lcm_val (AllCombinationsUint32 intervalsSet)"

text \<open>
  The running maximum of \<^verbatim>\<open>getLowestResFromSetMatching\<close> over candidates paired with
  their scores: a candidate replaces the one held only if its score is strictly higher.
\<close>

fun best_first :: "(u32 \<times> int) list \<Rightarrow> int \<times> u32 \<Rightarrow> int \<times> u32" where
  "best_first [] acc = acc"
| "best_first ((c, s) # rest) (maxScore, returnInterval) =
     (if maxScore < s then best_first rest (s, c) else best_first rest (maxScore, returnInterval))"

text \<open>
  The descending loop of \<^verbatim>\<open>planLowestResForMDPSingles\<close> on a retention list.
\<close>

definition mdp_scan ::
  "Retention list \<Rightarrow> u32 \<Rightarrow> u32 \<Rightarrow> (nat \<times> Retention) option \<times> Req
     \<Rightarrow> (nat \<times> Retention) option \<times> Req"
where
  "mdp_scan rets frm mdp acc =
     planLowestResForMDPSingles_loop (rev (enumerate 0 rets)) frm mdp acc"




subsection \<open>Example inputs\<close>

text \<open>
  The retentions of the spec's scenarios: 10 seconds for 7 days, one minute for 30 days, one
  hour for 400 days, all ready; and requests that are not planned yet.
\<close>

definition r10 :: Retention where
  "r10 = \<lparr>SecondsPerPoint = 10, NumberOfPoints = 60480, Ready = 0\<rparr>"

definition r60 :: Retention where
  "r60 = \<lparr>SecondsPerPoint = 60, NumberOfPoints = 43200, Ready = 0\<rparr>"

definition r3600 :: Retention where
  "r3600 = \<lparr>SecondsPerPoint = 3600, NumberOfPoints = 9600, Ready = 0\<rparr>"

definition rets3 :: "Retention list" where
  "rets3 = [r10, r60, r3600]"


definition mkreq :: "u32 \<Rightarrow> u32 \<Rightarrow> u32 \<Rightarrow> Req" where
  "mkreq f t raw =
     \<lparr>From = f, To = t, RawInterval = raw, Archive = 0, ArchInterval = 0, OutInterval = 0\<rparr>"



text \<open>
  A schema with the raw archive only, and series whose native interval is not the one that
  the schema declares (5 or 7 seconds instead of 10): as a single request that is not
  MDP-optimizable, before and after its initial plan, and as an MDP-optimizable request of
  a PN-group, before and after its plan.
\<close>

definition cat10 :: catalogue where "cat10 = (\<lambda>schemaID. [r10])"

definition req5 :: Req where
  "req5 = \<lparr>From = 999900, To = 1000000, RawInterval = 5, Archive = 0, ArchInterval = 5, OutInterval = 5\<rparr>"

definition rpRaw :: ReqsPlan where
  "rpRaw = \<lparr>pngroups = [], single = \<lparr>mdpyes = [], mdpno = [[mkreq 999900 1000000 5]]\<rparr>\<rparr>"

definition rpRaw' :: ReqsPlan where
  "rpRaw' = \<lparr>pngroups = [], single = \<lparr>mdpyes = [], mdpno = [[req5]]\<rparr>\<rparr>"

definition rpRaw7 :: ReqsPlan where
  "rpRaw7 = \<lparr>pngroups = [(1, \<lparr>mdpyes = [[mkreq 999900 1000000 7]], mdpno = []\<rparr>)],
             single = \<lparr>mdpyes = [], mdpno = []\<rparr>\<rparr>"

definition req7 :: Req where
  "req7 = \<lparr>From = 999900, To = 1000000, RawInterval = 7, Archive = 0, ArchInterval = 7, OutInterval = 10\<rparr>"

definition rpRaw7' :: ReqsPlan where
  "rpRaw7' = \<lparr>pngroups = [(1, \<lparr>mdpyes = [[req7]], mdpno = []\<rparr>)],
             single = \<lparr>mdpyes = [], mdpno = []\<rparr>\<rparr>"

text \<open>
  The two schemas of the spec's fourth scenario, 10 seconds and 5 minutes against 10 seconds
  and 4 minutes, with one request each over two days.
\<close>

definition r300 :: Retention where
  "r300 = \<lparr>SecondsPerPoint = 300, NumberOfPoints = 20160, Ready = 0\<rparr>"

definition r240 :: Retention where
  "r240 = \<lparr>SecondsPerPoint = 240, NumberOfPoints = 10800, Ready = 0\<rparr>"

definition catXY :: catalogue where
  "catXY = (\<lambda>schemaID. if schemaID = 0 then [r10, r300] else [r10, r240])"

definition rbrXY :: ReqsByRet where
  "rbrXY = [[mkreq 827200 1000000 10], [mkreq 827200 1000000 10]]"

text \<open>
  Further plans, before and after planning: a request whose window starts before the
  retention of its only archive; a PN-group with a request in each half; the PN-group of the
  fourth scenario; a window that starts after \<open>now\<close>, as a single request and as the
  MDP-optimizable half of a PN-group; and requests planned over short windows.
\<close>

definition rpOld :: ReqsPlan where
  "rpOld = \<lparr>pngroups = [], single = \<lparr>mdpyes = [], mdpno = [[mkreq 0 1000000 10]]\<rparr>\<rparr>"

definition rpOld' :: ReqsPlan where
  "rpOld' = \<lparr>pngroups = [],
            single = \<lparr>mdpyes = [],
                      mdpno = [[\<lparr>From = 0, To = 1000000, RawInterval = 10, Archive = 0,
                                ArchInterval = 10, OutInterval = 10\<rparr>]]\<rparr>\<rparr>"

definition rpMixed :: ReqsPlan where
  "rpMixed = \<lparr>pngroups = [(7, \<lparr>mdpyes = [[mkreq 827200 1000000 10]],
                                  mdpno = [[mkreq 827200 1000000 10]]\<rparr>)],
              single = \<lparr>mdpyes = [], mdpno = []\<rparr>\<rparr>"

definition reqYes :: Req where
  "reqYes = \<lparr>From = 827200, To = 1000000, RawInterval = 10, Archive = 1,
             ArchInterval = 300, OutInterval = 300\<rparr>"

definition reqNo :: Req where
  "reqNo = \<lparr>From = 827200, To = 1000000, RawInterval = 10, Archive = 0,
            ArchInterval = 10, OutInterval = 10\<rparr>"

definition rpMixed' :: ReqsPlan where
  "rpMixed' = \<lparr>pngroups = [(7, \<lparr>mdpyes = [[reqYes]], mdpno = [[reqNo]]\<rparr>)],
               single = \<lparr>mdpyes = [], mdpno = []\<rparr>\<rparr>"

definition rpXY :: ReqsPlan where
  "rpXY = \<lparr>pngroups = [(7, \<lparr>mdpyes = rbrXY, mdpno = []\<rparr>)],
           single = \<lparr>mdpyes = [], mdpno = []\<rparr>\<rparr>"

definition rpXY' :: ReqsPlan where
  "rpXY' = \<lparr>pngroups = [(7, \<lparr>mdpyes = [[reqYes], [reqNo\<lparr>OutInterval := 300\<rparr>]], mdpno = []\<rparr>)],
            single = \<lparr>mdpyes = [], mdpno = []\<rparr>\<rparr>"



definition rpLateGroup :: ReqsPlan where
  "rpLateGroup = \<lparr>pngroups = [(7, \<lparr>mdpyes = [[mkreq 1000100 1000200 10]], mdpno = []\<rparr>)],
                  single = \<lparr>mdpyes = [], mdpno = []\<rparr>\<rparr>"



text \<open>
  Two requests over \<open>2 ^ 31\<close> seconds of a series kept at one second, before and after
  their plan; a schema whose only retention is not ready yet; and the request of \<open>rpOld\<close>
  as an MDP-optimizable single and as the other half of a PN-group, before and after planning.
\<close>

definition r1 :: Retention where
  "r1 = \<lparr>SecondsPerPoint = 1, NumberOfPoints = 2147483648, Ready = 0\<rparr>"





definition rNotReady :: Retention where
  "rNotReady = \<lparr>SecondsPerPoint = 10, NumberOfPoints = 60480, Ready = 2000000\<rparr>"

definition catNotReady :: catalogue where "catNotReady = (\<lambda>schemaID. [rNotReady])"

definition reqOld :: Req where
  "reqOld = \<lparr>From = 0, To = 1000000, RawInterval = 10, Archive = 0,
             ArchInterval = 10, OutInterval = 10\<rparr>"

definition rpOldYes :: ReqsPlan where
  "rpOldYes = \<lparr>pngroups = [], single = \<lparr>mdpyes = [[mkreq 0 1000000 10]], mdpno = []\<rparr>\<rparr>"

definition rpOldYes' :: ReqsPlan where
  "rpOldYes' = \<lparr>pngroups = [], single = \<lparr>mdpyes = [[reqOld]], mdpno = []\<rparr>\<rparr>"

definition rpOldGroup :: ReqsPlan where
  "rpOldGroup = \<lparr>pngroups = [(7, \<lparr>mdpyes = [], mdpno = [[mkreq 0 1000000 10]]\<rparr>)],
                 single = \<lparr>mdpyes = [], mdpno = []\<rparr>\<rparr>"

definition rpOldGroup' :: ReqsPlan where
  "rpOldGroup' = \<lparr>pngroups = [(7, \<lparr>mdpyes = [], mdpno = [[reqOld]]\<rparr>)],
                  single = \<lparr>mdpyes = [], mdpno = []\<rparr>\<rparr>"

section \<open>Auxiliary lemmas\<close>

subsection \<open>Evaluation of the model on concrete inputs\<close>

lemmas planner_defs =
  planRequests_steps12_def planRequests_initial_def planRequests_soft.simps
  planRequests_pass_def planRequests_pngroup_def pngroupsByLen_def lookup_group_def
  reduceResSingles_def reduceResMulti_def planHighestResSingles_def planLowestResForMDPSingles_def
  planHighestResMulti_def planLowestResForMDPMulti_def planToMulti_def planToMulti_req_def
  getValidIntervalsSet_def getValidIntervals_def getLowestResFromSetMatching_def
  getHighestResFromSetMatching_def AllCombinationsUint32_def Lcm_u32_def seenIntervals_add_def
  findHighestResRet_def findLowestValidResForInterval_def
  Valid_def MaxRetention_def u32_def u16_def Plan_def PlanNormalization_def AdjustTo_def
  PointsFetch_def HasData_def Len_def
  rp_PointsFetch_def gd_PointsFetch_def rbr_PointsFetch_def enumerate_eq_zip


lemmas lcm_eval = lcm_nat_def gcd_nat.simps

lemmas exampleXY_defs = catXY_def rbrXY_def r10_def r300_def r240_def mkreq_def

lemma getLowestRes_XY:
  "getLowestResFromSetMatching catXY rbrXY 827200 172800 0 432 [[10, 300], [10, 240]] = Inr 300"
  by (simp add: planner_defs lcm_eval exampleXY_defs)

lemma candidates_XY:
  "filter (in_range 0 432) (lcm_candidates [[10, 300], [10, 240]]) = [10, 240, 300]"
  by (simp add: lcm_candidates_def lcm_val_def AllCombinationsUint32_def in_range_def lcm_eval)



lemma initial_rpRaw: "planRequests_initial cat10 1000000 999900 1000000 rpRaw 800 = Inr rpRaw'"
  by (simp add: planner_defs Let_def cat10_def r10_def mkreq_def req5_def rpRaw_def rpRaw'_def)

lemma pass_rpRaw: "planRequests_pass cat10 1000000 999900 1000000 10 [] rpRaw' = Inr (False, rpRaw', True)"
  by (simp add: planner_defs Let_def cat10_def r10_def mkreq_def req5_def rpRaw_def rpRaw'_def)

lemma soft_rpRaw_aux:
  assumes "planRequests_soft cat now frm to mpprSoft groupIDs rp progress = Some y"
  shows "\<not> (cat = cat10 \<and> now = 1000000 \<and> frm = 999900 \<and> to = 1000000 \<and> mpprSoft = 10
            \<and> groupIDs = [] \<and> rp = rpRaw' \<and> progress)"
proof (rule planRequests_soft.raw_induct
    [where P = "\<lambda>cat now frm to mpprSoft groupIDs rp progress y.
        \<not> (cat = cat10 \<and> now = 1000000 \<and> frm = 999900 \<and> to = 1000000 \<and> mpprSoft = 10
            \<and> groupIDs = [] \<and> rp = rpRaw' \<and> progress)", OF _ assms])
  fix soft cat now frm to mpprSoft groupIDs rp progress y
  assume IH: "\<And>cat now frm to mpprSoft groupIDs rp progress y.
        soft cat now frm to mpprSoft groupIDs rp progress = Some y \<Longrightarrow>
        \<not> (cat = cat10 \<and> now = 1000000 \<and> frm = 999900 \<and> to = 1000000 \<and> mpprSoft = 10
            \<and> groupIDs = [] \<and> rp = rpRaw' \<and> progress)"
    and step: "(if u32 mpprSoft < rp_PointsFetch rp \<and> progress
      then case planRequests_pass cat now frm to mpprSoft groupIDs rp of
           Inl e \<Rightarrow> Some (Inl e)
           | Inr (honored, rp', progress') \<Rightarrow>
               if honored then Some (Inr rp')
               else soft cat now frm to mpprSoft groupIDs rp' progress'
      else Some (Inr rp)) = Some y"
  show "\<not> (cat = cat10 \<and> now = 1000000 \<and> frm = 999900 \<and> to = 1000000 \<and> mpprSoft = 10
            \<and> groupIDs = [] \<and> rp = rpRaw' \<and> progress)"
  proof
    assume a: "cat = cat10 \<and> now = 1000000 \<and> frm = 999900 \<and> to = 1000000 \<and> mpprSoft = 10
        \<and> groupIDs = [] \<and> rp = rpRaw' \<and> progress"
    have pf: "u32 10 < rp_PointsFetch rpRaw'"
      by (simp add: planner_defs rpRaw'_def req5_def)
    from step a pf have "soft cat10 1000000 999900 1000000 10 [] rpRaw' True = Some y"
      by (simp add: pass_rpRaw)
    from IH [OF this] show False by simp
  qed
qed

lemma pngroupsByLen_rpRaw': "pngroupsByLen rpRaw' = []"
  by (simp add: pngroupsByLen_def rpRaw'_def)

subsection \<open>Machine integers\<close>

lemma unat_u32: "0 < x \<Longrightarrow> x < 2 ^ 32 \<Longrightarrow> unat (u32 x) = nat x"
  by (simp add: u32_def unat_eq_nat_uint uint_word_of_int)

lemma word_mod_zero_le:
  fixes a b :: u32
  assumes "a mod b = 0" "a \<noteq> 0"
  shows "b \<le> a"
proof (rule ccontr)
  assume "\<not> b \<le> a"
  then have "unat a < unat b" by (simp add: word_le_nat_alt)
  then have "unat (a mod b) = unat a" by (simp add: unat_mod)
  with assms show False by (simp add: unat_eq_zero)
qed

lemma word_minus1_le: "(- 1 :: u32) \<le> c \<Longrightarrow> c = - 1"
  by (simp add: word_order.extremum_unique)

subsection \<open>The descending search for a retention that divides an interval\<close>

lemma findLowestValidResForInterval_Nil [simp]:
  "findLowestValidResForInterval [] frm ttl interval = Inr None"
  by (simp add: findLowestValidResForInterval_def)

lemma findLowestValidResForInterval_snoc:
  "findLowestValidResForInterval (rets @ [r]) frm ttl interval =
     (if Valid r frm ttl then
        (if u32 (SecondsPerPoint r) = 0 then Inl Panic
         else if interval mod u32 (SecondsPerPoint r) = 0 then Inr (Some (length rets, r))
         else findLowestValidResForInterval rets frm ttl interval)
      else findLowestValidResForInterval rets frm ttl interval)"
  by (simp add: findLowestValidResForInterval_def enumerate_append_eq)

lemma findLowestValidResForInterval_Some:
  "findLowestValidResForInterval rets frm ttl interval = Inr (Some (i, ret)) \<Longrightarrow>
     i < length rets \<and> ret = rets ! i \<and> divides_valid frm ttl interval ret
     \<and> (\<forall>j < length rets. i < j \<longrightarrow> \<not> divides_valid frm ttl interval (rets ! j))"
proof (induction rets rule: rev_induct)
  case Nil
  then show ?case by simp
next
  case (snoc r rets)
  show ?case
  proof (cases "divides_valid frm ttl interval r")
    case True
    with snoc.prems have "i = length rets" "ret = r"
      by (auto simp: findLowestValidResForInterval_snoc divides_valid_def split: if_splits)
    with True show ?thesis by simp
  next
    case False
    with snoc.prems have "findLowestValidResForInterval rets frm ttl interval = Inr (Some (i, ret))"
      by (auto simp: findLowestValidResForInterval_snoc divides_valid_def split: if_splits)
    from snoc.IH [OF this] False show ?thesis
      by (auto simp: nth_append less_Suc_eq)
  qed
qed

lemma findLowestValidResForInterval_None:
  "findLowestValidResForInterval rets frm ttl interval = Inr None \<Longrightarrow>
     \<forall>ret \<in> set rets. \<not> divides_valid frm ttl interval ret"
proof (induction rets rule: rev_induct)
  case Nil
  then show ?case by simp
next
  case (snoc r rets)
  then show ?case
    by (auto simp: findLowestValidResForInterval_snoc divides_valid_def split: if_splits)
qed

lemma findLowestValidResForInterval_no_Panic:
  "\<forall>ret \<in> set rets. Valid ret frm ttl \<longrightarrow> u32 (SecondsPerPoint ret) \<noteq> 0 \<Longrightarrow>
     findLowestValidResForInterval rets frm ttl interval \<noteq> Inl e"
  by (induction rets rule: rev_induct) (auto simp: findLowestValidResForInterval_snoc)



subsection \<open>Planning one request\<close>

lemma Plan_Plan [simp]: "Plan i ret (Plan j ret' r) = Plan i ret r"
  by (simp add: Plan_def Let_def)

lemma Plan_fields [simp]:
  "Archive (Plan i ret r) = i" "From (Plan i ret r) = From r" "To (Plan i ret r) = To r"
  "RawInterval (Plan i ret r) = RawInterval r"
  "OutInterval (Plan i ret r) = ArchInterval (Plan i ret r)"
  by (simp_all add: Plan_def Let_def)

lemma PointsFetch_Plan_cong:
  "From r = From r' \<Longrightarrow> To r = To r' \<Longrightarrow> RawInterval r = RawInterval r' \<Longrightarrow>
     PointsFetch (Plan i ret r) = PointsFetch (Plan i ret r')"
  by (simp add: PointsFetch_def Plan_def Let_def)

subsection \<open>The descending scan of the MDP-optimizable singles\<close>

lemma mdp_scan_Nil [simp]: "mdp_scan [] frm mdp acc = acc"
  by (simp add: mdp_scan_def)

lemma mdp_scan_snoc:
  "mdp_scan (rets @ [r]) frm mdp (chosen, req0) =
     (if frm < Ready r then mdp_scan rets frm mdp (chosen, req0)
      else if mdp div 2 \<le> PointsFetch (Plan (length rets) r req0)
        then (Some (length rets, r), Plan (length rets) r req0)
      else mdp_scan rets frm mdp (Some (length rets, r), Plan (length rets) r req0))"
  by (simp add: mdp_scan_def enumerate_append_eq)

lemma mdp_scan_result:
  "mdp_scan rets frm mdp (chosen, req0) = (chosen', req0') \<Longrightarrow>
     (chosen' = chosen \<and> req0' = req0 \<and> (\<forall>j < length rets. frm < Ready (rets ! j)))
   \<or> (\<exists>a < length rets. chosen' = Some (a, rets ! a) \<and> req0' = Plan a (rets ! a) req0
         \<and> Ready (rets ! a) \<le> frm
         \<and> (\<forall>j < length rets. a < j \<and> Ready (rets ! j) \<le> frm
               \<longrightarrow> PointsFetch (Plan j (rets ! j) req0) < mdp div 2)
         \<and> (mdp div 2 \<le> PointsFetch (Plan a (rets ! a) req0)
              \<or> (\<forall>j < a. frm < Ready (rets ! j))))"
proof (induction rets arbitrary: chosen req0 chosen' req0' rule: rev_induct)
  case Nil
  then show ?case by simp
next
  case (snoc r rets)
  let ?n = "length rets"
  consider (notready) "frm < Ready r"
    | (enough) "\<not> frm < Ready r" "mdp div 2 \<le> PointsFetch (Plan ?n r req0)"
    | (more) "\<not> frm < Ready r" "\<not> mdp div 2 \<le> PointsFetch (Plan ?n r req0)"
    by blast
  then show ?case
  proof cases
    case notready
    with snoc.prems have "mdp_scan rets frm mdp (chosen, req0) = (chosen', req0')"
      by (simp add: mdp_scan_snoc)
    from snoc.IH [OF this] show ?thesis
    proof
      assume "chosen' = chosen \<and> req0' = req0 \<and> (\<forall>j<length rets. frm < Ready (rets ! j))"
      with notready show ?thesis by (auto simp: nth_append less_Suc_eq)
    next
      assume "\<exists>a<length rets. chosen' = Some (a, rets ! a) \<and> req0' = Plan a (rets ! a) req0
         \<and> Ready (rets ! a) \<le> frm
         \<and> (\<forall>j < length rets. a < j \<and> Ready (rets ! j) \<le> frm
               \<longrightarrow> PointsFetch (Plan j (rets ! j) req0) < mdp div 2)
         \<and> (mdp div 2 \<le> PointsFetch (Plan a (rets ! a) req0)
              \<or> (\<forall>j < a. frm < Ready (rets ! j)))"
      then obtain a where a: "a < length rets" "chosen' = Some (a, rets ! a)"
        "req0' = Plan a (rets ! a) req0" "Ready (rets ! a) \<le> frm"
        "\<forall>j < length rets. a < j \<and> Ready (rets ! j) \<le> frm
               \<longrightarrow> PointsFetch (Plan j (rets ! j) req0) < mdp div 2"
        "mdp div 2 \<le> PointsFetch (Plan a (rets ! a) req0) \<or> (\<forall>j < a. frm < Ready (rets ! j))"
        by blast
      have "\<forall>j < length (rets @ [r]). a < j \<and> Ready ((rets @ [r]) ! j) \<le> frm
               \<longrightarrow> PointsFetch (Plan j ((rets @ [r]) ! j) req0) < mdp div 2"
        using a(5) notready by (auto simp: nth_append less_Suc_eq)
      moreover have "mdp div 2 \<le> PointsFetch (Plan a ((rets @ [r]) ! a) req0)
          \<or> (\<forall>j < a. frm < Ready ((rets @ [r]) ! j))"
        using a(1,6) by (auto simp: nth_append)
      ultimately show ?thesis
        using a(1-4) by (intro disjI2 exI [of _ a]) (simp add: nth_append)
    qed
  next
    case enough
    with snoc.prems have "chosen' = Some (?n, r)" "req0' = Plan ?n r req0"
      by (simp_all add: mdp_scan_snoc)
    with enough show ?thesis
      by (intro disjI2 exI [of _ ?n]) (simp add: not_less)
  next
    case more
    with snoc.prems
    have run: "mdp_scan rets frm mdp (Some (?n, r), Plan ?n r req0) = (chosen', req0')"
      by (simp add: mdp_scan_snoc)
    from snoc.IH [OF this] show ?thesis
    proof
      assume "chosen' = Some (?n, r) \<and> req0' = Plan ?n r req0
          \<and> (\<forall>j<length rets. frm < Ready (rets ! j))"
      with more show ?thesis
        by (intro disjI2 exI [of _ ?n]) (simp add: not_less nth_append)
    next
      assume "\<exists>a<length rets. chosen' = Some (a, rets ! a)
         \<and> req0' = Plan a (rets ! a) (Plan ?n r req0)
         \<and> Ready (rets ! a) \<le> frm
         \<and> (\<forall>j < length rets. a < j \<and> Ready (rets ! j) \<le> frm
               \<longrightarrow> PointsFetch (Plan j (rets ! j) (Plan ?n r req0)) < mdp div 2)
         \<and> (mdp div 2 \<le> PointsFetch (Plan a (rets ! a) (Plan ?n r req0))
              \<or> (\<forall>j < a. frm < Ready (rets ! j)))"
      then obtain a where a: "a < length rets" "chosen' = Some (a, rets ! a)"
        "req0' = Plan a (rets ! a) req0" "Ready (rets ! a) \<le> frm"
        "\<forall>j < length rets. a < j \<and> Ready (rets ! j) \<le> frm
               \<longrightarrow> PointsFetch (Plan j (rets ! j) req0) < mdp div 2"
        "mdp div 2 \<le> PointsFetch (Plan a (rets ! a) req0) \<or> (\<forall>j < a. frm < Ready (rets ! j))"
        by auto
      have "\<forall>j < length (rets @ [r]). a < j \<and> Ready ((rets @ [r]) ! j) \<le> frm
               \<longrightarrow> PointsFetch (Plan j ((rets @ [r]) ! j) req0) < mdp div 2"
        using a(5) more by (auto simp: nth_append less_Suc_eq not_le)
      moreover have "mdp div 2 \<le> PointsFetch (Plan a ((rets @ [r]) ! a) req0)
          \<or> (\<forall>j < a. frm < Ready ((rets @ [r]) ! j))"
        using a(1,6) by (auto simp: nth_append)
      ultimately show ?thesis
        using a(1-4) by (intro disjI2 exI [of _ a]) (simp add: nth_append)
    qed
  qed
qed

subsection \<open>The selection of the coarsest interval under a cap\<close>

lemma Lcm_u32_eq: "Lcm_u32 vals = (if vals = [] then Inl Panic else Inr (lcm_val vals))"
  by (simp add: Lcm_u32_def lcm_val_def)

lemma score_loop_spec:
  "score_loop cat ps frm ttl c s = Inr s' \<Longrightarrow>
     s' = s + sum_list (map (\<lambda>(schemaID, reqs). int (length reqs) * chosen_spp cat frm ttl c schemaID) ps)"
proof (induction ps arbitrary: s)
  case Nil
  then show ?case by simp
next
  case (Cons p ps)
  obtain schemaID reqs where p: "p = (schemaID, reqs)" by (cases p)
  show ?case
  proof (cases "reqs = []")
    case True
    with Cons.prems p have "score_loop cat ps frm ttl c s = Inr s'" by simp
    from Cons.IH [OF this] True p show ?thesis by simp
  next
    case False
    with Cons.prems p obtain i ret where
      f: "findLowestValidResForInterval (cat (u16 schemaID)) frm ttl c = Inr (Some (i, ret))"
      and r: "score_loop cat ps frm ttl c (s + int (length reqs) * SecondsPerPoint ret) = Inr s'"
      by (auto split: sum.splits option.splits)
    from f have "chosen_spp cat frm ttl c schemaID = SecondsPerPoint ret"
      by (simp add: chosen_spp_def)
    with Cons.IH [OF r] p show ?thesis by simp
  qed
qed

lemma score_loop_positive:
  assumes "score_loop cat ps frm ttl c s = Inr s'"
    and "\<forall>(schemaID, reqs) \<in> set ps. \<forall>ret \<in> set (cat (u16 schemaID)). 0 < SecondsPerPoint ret"
  shows "s \<le> s' \<and> ((\<exists>(schemaID, reqs) \<in> set ps. reqs \<noteq> []) \<longrightarrow> s < s')"
  using assms
proof (induction ps arbitrary: s)
  case Nil
  then show ?case by simp
next
  case (Cons p ps)
  obtain schemaID reqs where p: "p = (schemaID, reqs)" by (cases p)
  from Cons.prems(2) have pos': "\<forall>(schemaID, reqs) \<in> set ps. \<forall>ret \<in> set (cat (u16 schemaID)). 0 < SecondsPerPoint ret"
    by simp
  show ?case
  proof (cases "reqs = []")
    case True
    with Cons.prems p have "score_loop cat ps frm ttl c s = Inr s'" by simp
    from Cons.IH [OF this pos'] True p show ?thesis by simp
  next
    case False
    with Cons.prems(1) p obtain i ret where
      f: "findLowestValidResForInterval (cat (u16 schemaID)) frm ttl c = Inr (Some (i, ret))"
      and r: "score_loop cat ps frm ttl c (s + int (length reqs) * SecondsPerPoint ret) = Inr s'"
      by (auto split: sum.splits option.splits)
    from findLowestValidResForInterval_Some [OF f] have "ret \<in> set (cat (u16 schemaID))" by simp
    with Cons.prems(2) p have "0 < SecondsPerPoint ret" by auto
    moreover from False have "0 < int (length reqs)" by simp
    ultimately have "0 < int (length reqs) * SecondsPerPoint ret" by simp
    with Cons.IH [OF r pos'] show ?thesis by auto
  qed
qed

lemma best_first_result:
  "best_first ps (ms, ri) = (ms', ri') \<Longrightarrow>
     ms \<le> ms' \<and> (\<forall>j < length ps. snd (ps ! j) \<le> ms')
     \<and> ((ms' = ms \<and> ri' = ri)
        \<or> (ms < ms' \<and> (\<exists>k < length ps. ps ! k = (ri', ms') \<and> (\<forall>j < k. snd (ps ! j) < ms'))))"
proof (induction ps arbitrary: ms ri)
  case Nil
  then show ?case by simp
next
  case (Cons p ps)
  obtain c s where p: "p = (c, s)" by (cases p)
  show ?case
  proof (cases "ms < s")
    case True
    with Cons.prems p have run: "best_first ps (s, c) = (ms', ri')" by simp
    from Cons.IH [OF run] have le: "s \<le> ms'" and all: "\<forall>j < length ps. snd (ps ! j) \<le> ms'"
      and alt: "(ms' = s \<and> ri' = c)
        \<or> (s < ms' \<and> (\<exists>k < length ps. ps ! k = (ri', ms') \<and> (\<forall>j < k. snd (ps ! j) < ms')))"
      by simp_all
    have all': "\<forall>j < length (p # ps). snd ((p # ps) ! j) \<le> ms'"
      using all le p by (auto simp: nth_Cons')
    from alt have "\<exists>k < length (p # ps). (p # ps) ! k = (ri', ms')
         \<and> (\<forall>j < k. snd ((p # ps) ! j) < ms')"
    proof
      assume "ms' = s \<and> ri' = c"
      with p show ?thesis by (intro exI [of _ 0]) simp
    next
      assume "s < ms' \<and> (\<exists>k < length ps. ps ! k = (ri', ms') \<and> (\<forall>j < k. snd (ps ! j) < ms'))"
      then obtain k where k: "s < ms'" "k < length ps" "ps ! k = (ri', ms')"
        "\<forall>j < k. snd (ps ! j) < ms'" by blast
      have "\<forall>j < Suc k. snd ((p # ps) ! j) < ms'"
        using k(1,4) p by (auto simp: nth_Cons' less_Suc_eq_0_disj)
      with k(2,3) show ?thesis by (intro exI [of _ "Suc k"]) simp
    qed
    with True le all' show ?thesis by auto
  next
    case False
    with Cons.prems p have run: "best_first ps (ms, ri) = (ms', ri')" by simp
    from Cons.IH [OF run] have le: "ms \<le> ms'" and all: "\<forall>j < length ps. snd (ps ! j) \<le> ms'"
      and alt: "(ms' = ms \<and> ri' = ri)
        \<or> (ms < ms' \<and> (\<exists>k < length ps. ps ! k = (ri', ms') \<and> (\<forall>j < k. snd (ps ! j) < ms')))"
      by simp_all
    have all': "\<forall>j < length (p # ps). snd ((p # ps) ! j) \<le> ms'"
      using all le p False by (auto simp: nth_Cons')
    from alt have "(ms' = ms \<and> ri' = ri)
        \<or> (ms < ms' \<and> (\<exists>k < length (p # ps). (p # ps) ! k = (ri', ms')
              \<and> (\<forall>j < k. snd ((p # ps) ! j) < ms')))"
    proof
      assume "ms' = ms \<and> ri' = ri"
      then show ?thesis by simp
    next
      assume "ms < ms' \<and> (\<exists>k < length ps. ps ! k = (ri', ms') \<and> (\<forall>j < k. snd (ps ! j) < ms'))"
      then obtain k where k: "ms < ms'" "k < length ps" "ps ! k = (ri', ms')"
        "\<forall>j < k. snd (ps ! j) < ms'" by blast
      have "\<forall>j < Suc k. snd ((p # ps) ! j) < ms'"
        using k(1,4) p False by (auto simp: nth_Cons' less_Suc_eq_0_disj)
      with k(1,2,3) show ?thesis by (intro disjI2 conjI exI [of _ "Suc k"]) simp_all
    qed
    with le all' show ?thesis by simp
  qed
qed

lemma getLowestRes_loop_spec:
  "getLowestRes_loop cat rbr frm ttl minI maxI combos (ms, lo, ri) = Inr (ms', lo', ri') \<Longrightarrow>
     lo' = fold min (map lcm_val combos) lo
     \<and> (ms', ri') = best_first (map (\<lambda>c. (c, score_spec cat rbr frm ttl c))
                               (filter (in_range minI maxI) (map lcm_val combos))) (ms, ri)
     \<and> (\<forall>c \<in> set (filter (in_range minI maxI) (map lcm_val combos)).
           score_loop cat (enumerate 0 rbr) frm ttl c 0 = Inr (score_spec cat rbr frm ttl c))"
proof (induction combos arbitrary: ms lo ri)
  case Nil
  then show ?case by simp
next
  case (Cons combo combos)
  let ?c = "lcm_val combo"
  let ?lo = "if ?c < lo then ?c else lo"
  from Cons.prems have ne: "combo \<noteq> []" by (auto simp: Lcm_u32_eq split: if_splits)
  then have lcm: "Lcm_u32 combo = Inr ?c" by (simp add: Lcm_u32_eq)
  have lo_min: "?lo = min ?c lo" by (simp add: min_def not_less) (metis order.strict_iff_order)
  show ?case
  proof (cases "in_range minI maxI ?c")
    case False
    then have out: "?c < minI \<or> maxI < ?c" by (auto simp: in_range_def not_le)
    with Cons.prems lcm
    have "getLowestRes_loop cat rbr frm ttl minI maxI combos (ms, ?lo, ri) = Inr (ms', lo', ri')"
      by (simp add: Let_def)
    from Cons.IH [OF this] False lo_min show ?thesis by simp
  next
    case True
    then have inr: "\<not> (?c < minI \<or> maxI < ?c)" by (auto simp: in_range_def not_le)
    with Cons.prems lcm obtain score where
      sc: "score_loop cat (enumerate 0 rbr) frm ttl ?c 0 = Inr score"
      by (auto simp: Let_def split: sum.splits)
    from score_loop_spec [OF sc] have score: "score = score_spec cat rbr frm ttl ?c"
      by (simp add: score_spec_def)
    show ?thesis
    proof (cases "ms < score")
      case better: True
      with Cons.prems lcm inr sc
      have "getLowestRes_loop cat rbr frm ttl minI maxI combos (score, ?lo, ?c) = Inr (ms', lo', ri')"
        by (simp add: Let_def)
      from Cons.IH [OF this] True lo_min better score sc show ?thesis by simp
    next
      case worse: False
      with Cons.prems lcm inr sc
      have "getLowestRes_loop cat rbr frm ttl minI maxI combos (ms, ?lo, ri) = Inr (ms', lo', ri')"
        by (simp add: Let_def)
      from Cons.IH [OF this] True lo_min worse score sc show ?thesis by simp
    qed
  qed
qed

lemma fold_min_le:
  fixes lo :: "'a :: linorder"
  shows "fold min cs lo \<le> lo \<and> (\<forall>c \<in> set cs. fold min cs lo \<le> c)
         \<and> (fold min cs lo = lo \<or> fold min cs lo \<in> set cs)"
proof (induction cs arbitrary: lo)
  case Nil
  then show ?case by simp
next
  case (Cons c cs)
  from Cons.IH [of "min c lo"] show ?case
    by (auto simp: min_def split: if_splits)
qed

subsection \<open>The ascending search for the finest ready retention\<close>

lemma findHighestResRet_loop_Some:
  "findHighestResRet_loop rets i frm ttl acc = Some (a, ret) \<Longrightarrow>
     acc = Some (a, ret)
     \<or> (i \<le> a \<and> a < i + length rets \<and> ret = rets ! (a - i) \<and> Ready ret \<le> frm)"
proof (induction rets arbitrary: i acc)
  case Nil
  then show ?case by simp
next
  case (Cons r rets)
  show ?case
  proof (cases "frm < Ready r")
    case True
    with Cons.prems have "findHighestResRet_loop rets (Suc i) frm ttl acc = Some (a, ret)" by simp
    from Cons.IH [OF this] show ?thesis by (auto simp: nth_Cons')
  next
    case False
    show ?thesis
    proof (cases "ttl \<le> u32 (MaxRetention r)")
      case True
      with False Cons.prems have "a = i" "ret = r" by simp_all
      with False show ?thesis by (simp add: not_less)
    next
      case long: False
      with False Cons.prems
      have "findHighestResRet_loop rets (Suc i) frm ttl (Some (i, r)) = Some (a, ret)" by simp
      from Cons.IH [OF this] have "(a = i \<and> ret = r)
         \<or> (Suc i \<le> a \<and> a < Suc i + length rets \<and> ret = rets ! (a - Suc i) \<and> Ready ret \<le> frm)"
        by auto
      then show ?thesis
      proof
        assume "a = i \<and> ret = r"
        with False show ?thesis by (simp add: not_less)
      next
        assume "Suc i \<le> a \<and> a < Suc i + length rets \<and> ret = rets ! (a - Suc i) \<and> Ready ret \<le> frm"
        then show ?thesis by (auto simp: nth_Cons' Suc_diff_le)
      qed
    qed
  qed
qed

lemma findHighestResRet_loop_None:
  "findHighestResRet_loop rets i frm ttl acc = None \<Longrightarrow>
     acc = None \<and> (\<forall>r \<in> set rets. frm < Ready r)"
proof (induction rets arbitrary: i acc)
  case Nil
  then show ?case by simp
next
  case (Cons r rets)
  show ?case
  proof (cases "frm < Ready r")
    case True
    with Cons.prems have "findHighestResRet_loop rets (Suc i) frm ttl acc = None" by simp
    from Cons.IH [OF this] True show ?thesis by simp
  next
    case False
    show ?thesis
    proof (cases "ttl \<le> u32 (MaxRetention r)")
      case True
      with False Cons.prems show ?thesis by simp
    next
      case long: False
      with False Cons.prems
      have "findHighestResRet_loop rets (Suc i) frm ttl (Some (i, r)) = None" by simp
      from Cons.IH [OF this] show ?thesis by simp
    qed
  qed
qed

lemma findHighestResRet_Some:
  "findHighestResRet rets frm ttl = Some (a, ret) \<Longrightarrow>
     a < length rets \<and> ret = rets ! a \<and> Ready ret \<le> frm"
  using findHighestResRet_loop_Some [of rets 0 frm ttl None a ret]
  by (auto simp: findHighestResRet_def)

lemma findHighestResRet_None:
  "findHighestResRet rets frm ttl = None \<Longrightarrow> \<forall>r \<in> set rets. frm < Ready r"
  using findHighestResRet_loop_None [of rets 0 frm ttl None]
  by (simp add: findHighestResRet_def)

subsection \<open>Requests after a plan\<close>

lemma req_ready_Plan:
  "a < length (cat (u16 schemaID)) \<Longrightarrow> Ready (cat (u16 schemaID) ! a) \<le> frm \<Longrightarrow>
     req_ready cat frm schemaID (Plan a ret req)"
  by (simp add: req_ready_def)

lemma planToMulti_req_fields [simp]:
  "OutInterval (planToMulti_req a ret interval req) = interval"
  "Archive (planToMulti_req a ret interval req) = a"
  by (auto simp: planToMulti_req_def PlanNormalization_def Let_def)

lemma AdjustTo_fields [simp]:
  "Archive (AdjustTo interval frm rets req) = Archive req"
  "OutInterval req = ArchInterval req \<Longrightarrow> OutInterval (AdjustTo interval frm rets req) = interval"
  by (auto simp: AdjustTo_def PlanNormalization_def)

lemma req_ready_Archive:
  "Archive req' = Archive req \<Longrightarrow> req_ready cat frm schemaID req'
     = req_ready cat frm schemaID req"
  by (simp add: req_ready_def)

subsection \<open>Planning a half to a common interval\<close>

lemma planToMulti_loop_result:
  "planToMulti_loop cat frm ttl interval ps = Inr rbr' \<Longrightarrow>
     length rbr' = length ps
     \<and> (\<forall>k < length ps.
           (snd (ps ! k) = [] \<longrightarrow> rbr' ! k = [])
         \<and> (\<forall>req \<in> set (rbr' ! k).
               OutInterval req = interval \<and> req_ready cat frm (fst (ps ! k)) req
               \<and> Valid (cat (u16 (fst (ps ! k))) ! Archive req) frm ttl))"
proof (induction ps arbitrary: rbr')
  case Nil
  then show ?case by simp
next
  case (Cons p ps)
  obtain schemaID reqs where p: "p = (schemaID, reqs)" by (cases p)
  show ?case
  proof (cases "reqs = []")
    case True
    with Cons.prems p obtain rest' where
      rest: "planToMulti_loop cat frm ttl interval ps = Inr rest'" and r: "rbr' = reqs # rest'"
      by (auto split: sum.splits)
    from Cons.IH [OF rest] have len: "length rest' = length ps"
      and tl: "\<forall>k < length ps.
           (snd (ps ! k) = [] \<longrightarrow> rest' ! k = [])
         \<and> (\<forall>req \<in> set (rest' ! k).
               OutInterval req = interval \<and> req_ready cat frm (fst (ps ! k)) req
               \<and> Valid (cat (u16 (fst (ps ! k))) ! Archive req) frm ttl)"
      by simp_all
    show ?thesis
    proof (intro conjI allI impI)
      show "length rbr' = length (p # ps)" using len r by simp
    next
      fix k assume "k < length (p # ps)" "snd ((p # ps) ! k) = []"
      then show "rbr' ! k = []" using tl r p True by (cases k) auto
    next
      fix k assume k: "k < length (p # ps)"
      show "\<forall>req \<in> set (rbr' ! k).
               OutInterval req = interval \<and> req_ready cat frm (fst ((p # ps) ! k)) req
               \<and> Valid (cat (u16 (fst ((p # ps) ! k))) ! Archive req) frm ttl"
      proof (cases k)
        case 0
        with True r show ?thesis by simp
      next
        case (Suc k')
        with k tl r show ?thesis by simp
      qed
    qed
  next
    case False
    with Cons.prems p obtain a ret rest' where
      f: "findLowestValidResForInterval (cat (u16 schemaID)) frm ttl interval = Inr (Some (a, ret))"
      and rest: "planToMulti_loop cat frm ttl interval ps = Inr rest'"
      and r: "rbr' = map (planToMulti_req a ret interval) reqs # rest'"
      by (auto split: sum.splits option.splits)
    from findLowestValidResForInterval_Some [OF f]
    have a: "a < length (cat (u16 schemaID))" "ret = cat (u16 schemaID) ! a" "Valid ret frm ttl"
      by (auto simp: divides_valid_def)
    then have rdy: "Ready (cat (u16 schemaID) ! a) \<le> frm" by (simp add: Valid_def)
    have head: "\<forall>req \<in> set (map (planToMulti_req a ret interval) reqs).
        OutInterval req = interval \<and> req_ready cat frm schemaID req
        \<and> Valid (cat (u16 schemaID) ! Archive req) frm ttl"
      using a rdy by (auto simp: req_ready_def)
    from Cons.IH [OF rest] have len: "length rest' = length ps"
      and tl: "\<forall>k < length ps.
           (snd (ps ! k) = [] \<longrightarrow> rest' ! k = [])
         \<and> (\<forall>req \<in> set (rest' ! k).
               OutInterval req = interval \<and> req_ready cat frm (fst (ps ! k)) req
               \<and> Valid (cat (u16 (fst (ps ! k))) ! Archive req) frm ttl)"
      by simp_all
    show ?thesis
    proof (intro conjI allI impI)
      show "length rbr' = length (p # ps)" using len r by simp
    next
      fix k assume "k < length (p # ps)" "snd ((p # ps) ! k) = []"
      then show "rbr' ! k = []" using tl r p False by (cases k) auto
    next
      fix k assume k: "k < length (p # ps)"
      show "\<forall>req \<in> set (rbr' ! k).
               OutInterval req = interval \<and> req_ready cat frm (fst ((p # ps) ! k)) req
               \<and> Valid (cat (u16 (fst ((p # ps) ! k))) ! Archive req) frm ttl"
      proof (cases k)
        case 0
        with head r p show ?thesis by simp
      next
        case (Suc k')
        with k tl r show ?thesis by simp
      qed
    qed
  qed
qed

lemma nth_enumerate0 [simp]: "k < length xs \<Longrightarrow> enumerate 0 xs ! k = (k, xs ! k)"
  by (simp add: nth_enumerate_eq)

lemma planToMulti_result:
  assumes "planToMulti cat now frm to interval rbr = Inr rbr'"
  shows "length rbr' = length rbr"
    and "rbr_ready cat frm rbr'"
    and "\<forall>reqs \<in> set rbr'. \<forall>req \<in> set reqs. OutInterval req = interval"
    and "\<forall>k < length rbr. rbr ! k = [] \<longrightarrow> rbr' ! k = []"
    and "\<forall>k < length rbr. \<forall>req \<in> set (rbr' ! k).
           Valid (cat (u16 k) ! Archive req) frm (now - frm)"
proof -
  from assms have "planToMulti_loop cat frm (now - frm) interval (enumerate 0 rbr) = Inr rbr'"
    by (simp add: planToMulti_def)
  from planToMulti_loop_result [OF this]
  have len: "length rbr' = length rbr"
    and all: "\<forall>k < length rbr.
           (rbr ! k = [] \<longrightarrow> rbr' ! k = [])
         \<and> (\<forall>req \<in> set (rbr' ! k).
               OutInterval req = interval \<and> req_ready cat frm k req
               \<and> Valid (cat (u16 k) ! Archive req) frm (now - frm))"
    by simp_all
  show "length rbr' = length rbr" by (rule len)
  show "rbr_ready cat frm rbr'" using len all by (simp add: rbr_ready_def)
  show "\<forall>reqs \<in> set rbr'. \<forall>req \<in> set reqs. OutInterval req = interval"
  proof (intro ballI)
    fix reqs req assume "reqs \<in> set rbr'" "req \<in> set reqs"
    then obtain k where "k < length rbr'" "req \<in> set (rbr' ! k)"
      by (auto simp: in_set_conv_nth)
    with len all show "OutInterval req = interval" by simp
  qed
  show "\<forall>k < length rbr. rbr ! k = [] \<longrightarrow> rbr' ! k = []" using all by simp
  show "\<forall>k < length rbr. \<forall>req \<in> set (rbr' ! k).
           Valid (cat (u16 k) ! Archive req) frm (now - frm)" using all by simp
qed

subsection \<open>The MDP-no planner of a PN-group half\<close>

lemma seenIntervals_add_nonempty:
  "reqs \<noteq> [] \<or> l \<noteq> [] \<Longrightarrow> seenIntervals_add reqs l \<noteq> []"
proof -
  have "l \<noteq> [] \<Longrightarrow> fold (\<lambda>req l. if ArchInterval req \<in> set l then l else l @ [ArchInterval req]) reqs l \<noteq> []"
    for reqs :: "Req list" and l
    by (induction reqs arbitrary: l) auto
  moreover have "reqs \<noteq> [] \<Longrightarrow> seenIntervals_add reqs l \<noteq> []"
  proof (cases reqs)
    case Nil
    then show "reqs \<noteq> [] \<Longrightarrow> ?thesis" by simp
  next
    case (Cons r rs)
    have "(if ArchInterval r \<in> set l then l else l @ [ArchInterval r]) \<noteq> []" by auto
    with calculation [of "if ArchInterval r \<in> set l then l else l @ [ArchInterval r]" rs] Cons
    show ?thesis by (simp add: seenIntervals_add_def)
  qed
  ultimately show "reqs \<noteq> [] \<or> l \<noteq> [] \<Longrightarrow> ?thesis"
    by (auto simp: seenIntervals_add_def)
qed

lemma planHighestResMulti_loop_result:
  "planHighestResMulti_loop cat frm ttl ps l = (True, rbr', l') \<Longrightarrow>
     length rbr' = length ps
     \<and> (l \<noteq> [] \<or> (\<exists>p \<in> set ps. snd p \<noteq> []) \<longrightarrow> l' \<noteq> [])
     \<and> (\<forall>k < length ps.
           (snd (ps ! k) = [] \<longrightarrow> rbr' ! k = [])
         \<and> (snd (ps ! k) \<noteq> [] \<longrightarrow> (\<exists>ret \<in> set (cat (u16 (fst (ps ! k)))). Ready ret \<le> frm))
         \<and> (\<forall>req \<in> set (rbr' ! k).
               OutInterval req = ArchInterval req \<and> req_ready cat frm (fst (ps ! k)) req))"
proof (induction ps arbitrary: l rbr' l')
  case Nil
  then show ?case by simp
next
  case (Cons p ps)
  obtain schemaID reqs where p: "p = (schemaID, reqs)" by (cases p)
  show ?case
  proof (cases "reqs = []")
    case True
    with Cons.prems p obtain rest' where
      rest: "planHighestResMulti_loop cat frm ttl ps l = (True, rest', l')"
      and r: "rbr' = reqs # rest'"
      by (auto split: prod.splits)
    from Cons.IH [OF rest] have len: "length rest' = length ps"
      and ne: "l \<noteq> [] \<or> (\<exists>p \<in> set ps. snd p \<noteq> []) \<longrightarrow> l' \<noteq> []"
      and tl: "\<forall>k < length ps.
           (snd (ps ! k) = [] \<longrightarrow> rest' ! k = [])
         \<and> (snd (ps ! k) \<noteq> [] \<longrightarrow> (\<exists>ret \<in> set (cat (u16 (fst (ps ! k)))). Ready ret \<le> frm))
         \<and> (\<forall>req \<in> set (rest' ! k).
               OutInterval req = ArchInterval req \<and> req_ready cat frm (fst (ps ! k)) req)"
      by simp_all
    show ?thesis
    proof (intro conjI allI impI)
      show "length rbr' = length (p # ps)" using len r by simp
    next
      assume "l \<noteq> [] \<or> (\<exists>p \<in> set (p # ps). snd p \<noteq> [])"
      with ne p True show "l' \<noteq> []" by auto
    next
      fix k assume "k < length (p # ps)" "snd ((p # ps) ! k) = []"
      then show "rbr' ! k = []" using tl r p True by (cases k) auto
    next
      fix k assume "k < length (p # ps)" "snd ((p # ps) ! k) \<noteq> []"
      then show "\<exists>ret \<in> set (cat (u16 (fst ((p # ps) ! k)))). Ready ret \<le> frm"
        using tl p True by (cases k) auto
    next
      fix k assume k: "k < length (p # ps)"
      show "\<forall>req \<in> set (rbr' ! k).
               OutInterval req = ArchInterval req \<and> req_ready cat frm (fst ((p # ps) ! k)) req"
      proof (cases k)
        case 0
        with True r show ?thesis by simp
      next
        case (Suc k')
        with k tl r show ?thesis by simp
      qed
    qed
  next
    case False
    with Cons.prems p obtain a ret rest' where
      f: "findHighestResRet (cat (u16 schemaID)) frm ttl = Some (a, ret)"
      and rest: "planHighestResMulti_loop cat frm ttl ps
                   (seenIntervals_add (map (Plan a ret) reqs) l) = (True, rest', l')"
      and r: "rbr' = map (Plan a ret) reqs # rest'"
      by (auto simp: Let_def split: option.splits prod.splits)
    from findHighestResRet_Some [OF f]
    have a: "a < length (cat (u16 schemaID))" "ret = cat (u16 schemaID) ! a" "Ready ret \<le> frm"
      by auto
    then have mem: "ret \<in> set (cat (u16 schemaID))" by simp
    have seen: "seenIntervals_add (map (Plan a ret) reqs) l \<noteq> []"
      using False by (intro seenIntervals_add_nonempty) simp
    from Cons.IH [OF rest] seen have len: "length rest' = length ps"
      and ne: "l' \<noteq> []"
      and tl: "\<forall>k < length ps.
           (snd (ps ! k) = [] \<longrightarrow> rest' ! k = [])
         \<and> (snd (ps ! k) \<noteq> [] \<longrightarrow> (\<exists>ret \<in> set (cat (u16 (fst (ps ! k)))). Ready ret \<le> frm))
         \<and> (\<forall>req \<in> set (rest' ! k).
               OutInterval req = ArchInterval req \<and> req_ready cat frm (fst (ps ! k)) req)"
      by simp_all
    have head: "\<forall>req \<in> set (map (Plan a ret) reqs).
        OutInterval req = ArchInterval req \<and> req_ready cat frm schemaID req"
      using a by (auto simp: req_ready_def)
    show ?thesis
    proof (intro conjI allI impI)
      show "length rbr' = length (p # ps)" using len r by simp
    next
      show "l' \<noteq> []" by (rule ne)
    next
      fix k assume "k < length (p # ps)" "snd ((p # ps) ! k) = []"
      then show "rbr' ! k = []" using tl r p False by (cases k) auto
    next
      fix k assume "k < length (p # ps)" "snd ((p # ps) ! k) \<noteq> []"
      then show "\<exists>ret \<in> set (cat (u16 (fst ((p # ps) ! k)))). Ready ret \<le> frm"
        using tl p mem a(3) by (cases k) auto
    next
      fix k assume k: "k < length (p # ps)"
      show "\<forall>req \<in> set (rbr' ! k).
               OutInterval req = ArchInterval req \<and> req_ready cat frm (fst ((p # ps) ! k)) req"
      proof (cases k)
        case 0
        with head r p show ?thesis by simp
      next
        case (Suc k')
        with k tl r show ?thesis by simp
      qed
    qed
  qed
qed

lemma planHighestResMulti_result:
  assumes "planHighestResMulti cat now frm to rbr = Inr (True, rbr')"
  shows "length rbr' = length rbr"
    and "rbr_ready cat frm rbr'"
    and "same_out rbr'"
    and "has_ready cat frm rbr"
proof -
  from assms obtain rbr1 l interval where
    loop: "planHighestResMulti_loop cat frm (now - frm) (enumerate 0 rbr) [] = (True, rbr1, l)"
    and rbr': "rbr' = map (\<lambda>(schemaID, reqs). map (AdjustTo interval frm (cat (u16 schemaID))) reqs)
                        (enumerate 0 rbr1)"
    by (auto simp: planHighestResMulti_def split: prod.splits if_splits sum.splits)
  from planHighestResMulti_loop_result [OF loop]
  have len: "length rbr1 = length rbr"
    and all: "\<forall>k < length rbr.
           (rbr ! k \<noteq> [] \<longrightarrow> (\<exists>ret \<in> set (cat (u16 k)). Ready ret \<le> frm))
         \<and> (\<forall>req \<in> set (rbr1 ! k).
               OutInterval req = ArchInterval req \<and> req_ready cat frm k req)"
    by simp_all
  show "length rbr' = length rbr" using len rbr' by simp
  have nth: "rbr' ! k = map (AdjustTo interval frm (cat (u16 k))) (rbr1 ! k)" if "k < length rbr" for k
    using that len rbr' by simp
  show "rbr_ready cat frm rbr'"
    unfolding rbr_ready_def
  proof (intro allI impI ballI)
    fix k req assume k: "k < length rbr'" and "req \<in> set (rbr' ! k)"
    with nth [of k] len rbr' obtain req1 where
      "req1 \<in> set (rbr1 ! k)" "req = AdjustTo interval frm (cat (u16 k)) req1" by auto
    with all k len rbr' show "req_ready cat frm k req"
      by (simp add: req_ready_def)
  qed
  show "same_out rbr'"
    unfolding same_out_def
  proof (intro exI [of _ interval] ballI)
    fix reqs req assume "reqs \<in> set rbr'" "req \<in> set reqs"
    then obtain k where k: "k < length rbr'" "req \<in> set (rbr' ! k)"
      by (auto simp: in_set_conv_nth)
    with nth [of k] len rbr' obtain req1 where
      "req1 \<in> set (rbr1 ! k)" "req = AdjustTo interval frm (cat (u16 k)) req1" by auto
    with all k len rbr' show "OutInterval req = interval" by simp
  qed
  show "has_ready cat frm rbr"
    using all by (simp add: has_ready_def)
qed

lemma planHighestResMulti_no_Panic:
  assumes "HasData rbr"
  shows "planHighestResMulti cat now frm to rbr \<noteq> Inl e"
proof -
  obtain ok rbr1 l where
    loop: "planHighestResMulti_loop cat frm (now - frm) (enumerate 0 rbr) [] = (ok, rbr1, l)"
    by (metis prod_cases3)
  show ?thesis
  proof (cases ok)
    case False
    with loop show ?thesis by (simp add: planHighestResMulti_def)
  next
    case True
    from assms obtain k where "k < length rbr" "rbr ! k \<noteq> []"
      by (auto simp: HasData_def in_set_conv_nth)
    then have "(k, rbr ! k) \<in> set (enumerate 0 rbr)" by (simp add: in_set_enumerate_eq)
    with \<open>rbr ! k \<noteq> []\<close> have "\<exists>p \<in> set (enumerate 0 rbr). snd p \<noteq> []" by force
    moreover from loop True
    have "planHighestResMulti_loop cat frm (now - frm) (enumerate 0 rbr) [] = (True, rbr1, l)"
      by simp
    ultimately have "l \<noteq> []" using planHighestResMulti_loop_result by blast
    with loop True show ?thesis by (simp add: planHighestResMulti_def Lcm_u32_eq)
  qed
qed

subsection \<open>The planners of the singles\<close>

lemma planHighestResSingles_result:
  assumes "planHighestResSingles cat now frm to schemaID reqs = (ok, reqs')"
  shows "(\<not> ok \<and> reqs' = reqs \<and> (\<forall>ret \<in> set (cat schemaID). frm < Ready ret))
       \<or> (ok \<and> (\<exists>a < length (cat schemaID). Ready (cat schemaID ! a) \<le> frm
               \<and> reqs' = map (Plan a (cat schemaID ! a)) reqs))"
proof (cases "findHighestResRet (cat schemaID) frm (now - frm)")
  case None
  with assms findHighestResRet_None [OF None] show ?thesis
    by (simp add: planHighestResSingles_def)
next
  case (Some found)
  obtain a ret where found: "found = (a, ret)" by (cases found)
  from findHighestResRet_Some [OF Some [unfolded found]]
  have a: "a < length (cat schemaID)" "ret = cat schemaID ! a" "Ready ret \<le> frm" by auto
  from assms Some found have "ok" "reqs' = map (Plan a ret) reqs"
    by (simp_all add: planHighestResSingles_def)
  with a show ?thesis by auto
qed

lemma planLowestResForMDPSingles_result:
  assumes "planLowestResForMDPSingles cat now frm to mdp schemaID reqs = (ok, reqs')"
    and "reqs \<noteq> []"
  shows "(\<not> ok \<and> reqs' = reqs \<and> (\<forall>j < length (cat schemaID). frm < Ready (cat schemaID ! j)))
       \<or> (ok \<and> (\<exists>a < length (cat schemaID). Ready (cat schemaID ! a) \<le> frm
               \<and> reqs' = map (Plan a (cat schemaID ! a)) reqs
               \<and> (\<forall>j < length (cat schemaID). a < j \<and> Ready (cat schemaID ! j) \<le> frm
                     \<longrightarrow> PointsFetch (Plan j (cat schemaID ! j) (hd reqs)) < mdp div 2)
               \<and> (mdp div 2 \<le> PointsFetch (Plan a (cat schemaID ! a) (hd reqs))
                    \<or> (\<forall>j < a. frm < Ready (cat schemaID ! j)))))"
proof -
  let ?rets = "cat schemaID"
  from assms(2) obtain req0 others where reqs: "reqs = req0 # others" by (cases reqs) auto
  obtain chosen' req0' where scan: "mdp_scan ?rets frm mdp (None, req0) = (chosen', req0')"
    by (cases "mdp_scan ?rets frm mdp (None, req0)")
  from mdp_scan_result [OF scan]
  show ?thesis
  proof
    assume n: "chosen' = None \<and> req0' = req0 \<and> (\<forall>j < length ?rets. frm < Ready (?rets ! j))"
    with assms(1) reqs scan have "\<not> ok" "reqs' = reqs"
      by (simp_all add: planLowestResForMDPSingles_def mdp_scan_def)
    with n show ?thesis by simp
  next
    assume "\<exists>a < length ?rets. chosen' = Some (a, ?rets ! a) \<and> req0' = Plan a (?rets ! a) req0
         \<and> Ready (?rets ! a) \<le> frm
         \<and> (\<forall>j < length ?rets. a < j \<and> Ready (?rets ! j) \<le> frm
               \<longrightarrow> PointsFetch (Plan j (?rets ! j) req0) < mdp div 2)
         \<and> (mdp div 2 \<le> PointsFetch (Plan a (?rets ! a) req0)
              \<or> (\<forall>j < a. frm < Ready (?rets ! j)))"
    then obtain a where a: "a < length ?rets" "chosen' = Some (a, ?rets ! a)"
      "req0' = Plan a (?rets ! a) req0" "Ready (?rets ! a) \<le> frm"
      "\<forall>j < length ?rets. a < j \<and> Ready (?rets ! j) \<le> frm
               \<longrightarrow> PointsFetch (Plan j (?rets ! j) req0) < mdp div 2"
      "mdp div 2 \<le> PointsFetch (Plan a (?rets ! a) req0) \<or> (\<forall>j < a. frm < Ready (?rets ! j))"
      by blast
    from assms(1) reqs scan a(2,3) have "ok" "reqs' = map (Plan a (?rets ! a)) reqs"
      by (simp_all add: planLowestResForMDPSingles_def mdp_scan_def)
    with a(1,4,5,6) reqs
    have "ok \<and> (\<exists>a < length (cat schemaID). Ready (cat schemaID ! a) \<le> frm
               \<and> reqs' = map (Plan a (cat schemaID ! a)) reqs
               \<and> (\<forall>j < length (cat schemaID). a < j \<and> Ready (cat schemaID ! j) \<le> frm
                     \<longrightarrow> PointsFetch (Plan j (cat schemaID ! j) (hd reqs)) < mdp div 2)
               \<and> (mdp div 2 \<le> PointsFetch (Plan a (cat schemaID ! a) (hd reqs))
                    \<or> (\<forall>j < a. frm < Ready (cat schemaID ! j))))"
      by (intro conjI exI [of _ a]) simp_all
    then show ?thesis ..
  qed
qed

subsection \<open>The reduction of a bucket of singles\<close>

lemma reduceResSingles_loop_Some:
  "reduceResSingles_loop (enumerate n rets) frm ttl curOut = Some (a, ret) \<Longrightarrow>
     n \<le> a \<and> a < n + length rets \<and> ret = rets ! (a - n) \<and> Valid ret frm ttl"
proof (induction rets arbitrary: n)
  case Nil
  then show ?case by simp
next
  case (Cons r rets)
  show ?case
  proof (cases "Valid r frm ttl \<and> curOut < u32 (SecondsPerPoint r)")
    case True
    with Cons.prems have "a = n" "ret = r" by simp_all
    with True show ?thesis by simp
  next
    case False
    with Cons.prems have "reduceResSingles_loop (enumerate (Suc n) rets) frm ttl curOut = Some (a, ret)"
      by auto
    from Cons.IH [OF this] show ?thesis by (auto simp: nth_Cons' Suc_diff_le)
  qed
qed

lemma reduceResSingles_result:
  assumes "reduceResSingles cat now frm to schemaID reqs = (ok, reqs')"
  shows "reqs' = reqs
       \<or> (\<exists>a < length (cat schemaID). Valid (cat schemaID ! a) frm (now - frm)
             \<and> reqs' = map (Plan a (cat schemaID ! a)) reqs)"
proof (cases reqs)
  case Nil
  with assms show ?thesis by (simp add: reduceResSingles_def)
next
  case (Cons req0 others)
  show ?thesis
  proof (cases "reduceResSingles_loop (enumerate 0 (cat schemaID)) frm (now - frm) (OutInterval req0)")
    case None
    with assms Cons show ?thesis by (simp add: reduceResSingles_def)
  next
    case (Some found)
    obtain a ret where found: "found = (a, ret)" by (cases found)
    from reduceResSingles_loop_Some [OF Some [unfolded found]]
    have a: "a < length (cat schemaID)" "ret = cat schemaID ! a" "Valid ret frm (now - frm)" by auto
    from assms Cons Some found have "reqs' = map (Plan a ret) reqs"
      by (simp add: reduceResSingles_def)
    with a show ?thesis by auto
  qed
qed

subsection \<open>The valid intervals of a half\<close>

lemma getValidIntervals_ok:
  "getValidIntervals cat schemaID frm ttl = (v, ok) \<Longrightarrow>
     ok = (\<exists>ret \<in> set (cat schemaID). Valid ret frm ttl)"
  by (auto simp: getValidIntervals_def Let_def filter_empty_conv)

lemma getValidIntervalsSet_loop_ok:
  "getValidIntervalsSet_loop cat ps frm ttl acc = (vs, ok) \<Longrightarrow>
     ok = (\<forall>p \<in> set ps. snd p \<noteq> [] \<longrightarrow> (\<exists>ret \<in> set (cat (u16 (fst p))). Valid ret frm ttl))"
proof (induction ps arbitrary: acc)
  case Nil
  then show ?case by simp
next
  case (Cons p ps)
  obtain schemaID reqs where p: "p = (schemaID, reqs)" by (cases p)
  show ?case
  proof (cases "reqs = []")
    case True
    with Cons.prems p have "getValidIntervalsSet_loop cat ps frm ttl acc = (vs, ok)" by simp
    from Cons.IH [OF this] True p show ?thesis by simp
  next
    case False
    obtain v okv where g: "getValidIntervals cat (u16 schemaID) frm ttl = (v, okv)"
      by (cases "getValidIntervals cat (u16 schemaID) frm ttl")
    note okv = getValidIntervals_ok [OF g]
    show ?thesis
    proof (cases okv)
      case no: False
      with Cons.prems p False g have "\<not> ok" by simp
      with no okv p False show ?thesis by auto
    next
      case yes: True
      with Cons.prems p False g
      have "\<exists>acc'. getValidIntervalsSet_loop cat ps frm ttl acc' = (vs, ok)"
        by (auto split: if_splits)
      then obtain acc' where "getValidIntervalsSet_loop cat ps frm ttl acc' = (vs, ok)" ..
      from Cons.IH [OF this] yes okv p show ?thesis by simp
    qed
  qed
qed

lemma getValidIntervalsSet_ok:
  assumes "getValidIntervalsSet cat rbr frm ttl = (vs, ok)"
  shows "ok = (\<forall>k < length rbr. rbr ! k \<noteq> [] \<longrightarrow> (\<exists>ret \<in> set (cat (u16 k)). Valid ret frm ttl))"
proof -
  from assms have "getValidIntervalsSet_loop cat (enumerate 0 rbr) frm ttl [] = (vs, ok)"
    by (simp add: getValidIntervalsSet_def)
  from getValidIntervalsSet_loop_ok [OF this]
  have "ok = (\<forall>p \<in> set (enumerate 0 rbr). snd p \<noteq> []
                \<longrightarrow> (\<exists>ret \<in> set (cat (u16 (fst p))). Valid ret frm ttl))" .
  also have "\<dots> = (\<forall>k < length rbr. rbr ! k \<noteq> [] \<longrightarrow> (\<exists>ret \<in> set (cat (u16 k)). Valid ret frm ttl))"
  proof
    assume a: "\<forall>p \<in> set (enumerate 0 rbr). snd p \<noteq> []
                \<longrightarrow> (\<exists>ret \<in> set (cat (u16 (fst p))). Valid ret frm ttl)"
    show "\<forall>k < length rbr. rbr ! k \<noteq> [] \<longrightarrow> (\<exists>ret \<in> set (cat (u16 k)). Valid ret frm ttl)"
    proof (intro allI impI)
      fix k assume k: "k < length rbr" "rbr ! k \<noteq> []"
      then have "(k, rbr ! k) \<in> set (enumerate 0 rbr)" by (simp add: in_set_enumerate_eq)
      from a [rule_format, OF this] k(2) show "\<exists>ret \<in> set (cat (u16 k)). Valid ret frm ttl"
        by simp
    qed
  next
    assume "\<forall>k < length rbr. rbr ! k \<noteq> [] \<longrightarrow> (\<exists>ret \<in> set (cat (u16 k)). Valid ret frm ttl)"
    then show "\<forall>p \<in> set (enumerate 0 rbr). snd p \<noteq> []
                \<longrightarrow> (\<exists>ret \<in> set (cat (u16 (fst p))). Valid ret frm ttl)"
      by (auto simp: in_set_enumerate_eq)
  qed
  finally show ?thesis .
qed

subsection \<open>The MDP-optimizable planner and the reduction of a PN-group half\<close>


lemma planLowestResForMDPMulti_result:
  assumes "planLowestResForMDPMulti cat now frm to mdp rbr = Inr (ok, rbr')"
  shows "(\<not> ok \<and> rbr' = rbr
          \<and> \<not> (\<forall>k < length rbr. rbr ! k \<noteq> []
                  \<longrightarrow> (\<exists>ret \<in> set (cat (u16 k)). Valid ret frm (now - frm))))
       \<or> (ok \<and> mdp \<noteq> 0
          \<and> (\<forall>k < length rbr. rbr ! k \<noteq> []
                  \<longrightarrow> (\<exists>ret \<in> set (cat (u16 k)). Valid ret frm (now - frm)))
          \<and> (\<exists>interval vs.
                getValidIntervalsSet cat rbr frm (now - frm) = (vs, True)
                \<and> getLowestResFromSetMatching cat rbr frm (now - frm) 0
                     ((2 * (to - frm)) div mdp) vs = Inr interval
                \<and> planToMulti cat now frm to interval rbr = Inr rbr'))"
proof -
  from assms have mdp: "mdp \<noteq> 0"
    by (auto simp: planLowestResForMDPMulti_def Let_def split: if_splits)
  obtain vs okv where g: "getValidIntervalsSet cat rbr frm (now - frm) = (vs, okv)"
    by (cases "getValidIntervalsSet cat rbr frm (now - frm)")
  note okv = getValidIntervalsSet_ok [OF g]
  show ?thesis
  proof (cases okv)
    case False
    with assms mdp g have "\<not> ok" "rbr' = rbr"
      by (simp_all add: planLowestResForMDPMulti_def Let_def)
    with False okv show ?thesis by simp
  next
    case True
    with assms mdp g obtain interval where
      "getLowestResFromSetMatching cat rbr frm (now - frm) 0 ((2 * (to - frm)) div mdp) vs
         = Inr interval"
      "planToMulti cat now frm to interval rbr = Inr rbr'" "ok"
      by (auto simp: planLowestResForMDPMulti_def Let_def split: sum.splits)
    with True okv g mdp show ?thesis by auto
  qed
qed

lemma reduceResMulti_result:
  assumes "reduceResMulti cat now frm to rbr = Inr (ok, rbr')"
  shows "rbr' = rbr \<or> (\<exists>interval. planToMulti cat now frm to interval rbr = Inr rbr')"
proof -
  obtain vs okv where g: "getValidIntervalsSet cat rbr frm (now - frm) = (vs, okv)"
    by (cases "getValidIntervalsSet cat rbr frm (now - frm)")
  show ?thesis
  proof (cases okv)
    case False
    with assms g show ?thesis by (simp add: reduceResMulti_def Let_def)
  next
    case True
    with assms g show ?thesis
      by (auto simp: reduceResMulti_def Let_def split: sum.splits if_splits)
  qed
qed

subsection \<open>Halves without requests\<close>

lemma no_data_buckets: "\<not> HasData rbr \<Longrightarrow> k < length rbr \<Longrightarrow> rbr ! k = []"
  by (auto simp: HasData_def)

lemma no_data_ready: "\<not> HasData rbr \<Longrightarrow> rbr_ready cat frm rbr"
  by (simp add: rbr_ready_def no_data_buckets)

lemma no_data_has_ready: "\<not> HasData rbr \<Longrightarrow> has_ready cat frm rbr"
  by (simp add: has_ready_def no_data_buckets)

lemma no_data_same_out: "\<not> HasData rbr \<Longrightarrow> same_out rbr"
  unfolding same_out_def HasData_def by (intro exI [of _ 0]) auto

lemma planToMulti_ready_same_out:
  assumes "planToMulti cat now frm to interval rbr = Inr rbr'"
  shows "rbr_ready cat frm rbr' \<and> same_out rbr'"
  using planToMulti_result(2,3) [OF assms] by (auto simp: same_out_def)

lemma valid_has_ready:
  "\<forall>k < length rbr. rbr ! k \<noteq> [] \<longrightarrow> (\<exists>ret \<in> set (cat (u16 k)). Valid ret frm ttl) \<Longrightarrow>
     has_ready cat frm rbr"
  by (auto simp: has_ready_def Valid_def)

subsection \<open>The initial plan\<close>

lemma planRequests_pngroup_result:
  assumes "planRequests_pngroup cat now frm to planMDP gd = Inr gd'"
  shows "gd_ready cat frm gd' \<and> same_out (mdpyes gd') \<and> same_out (mdpno gd')
         \<and> gd_has_ready cat frm gd"
proof -
  have yes: "\<exists>y. rbr_ready cat frm y \<and> same_out y \<and> has_ready cat frm (mdpyes gd)
      \<and> (if HasData (mdpyes gd) then
            (case planLowestResForMDPMulti cat now frm to planMDP (mdpyes gd) of
               Inl e \<Rightarrow> Inl e
             | Inr (ok, rbr) \<Rightarrow>
                 if \<not> ok then Inl errUnSatisfiable else Inr (gd\<lparr>mdpyes := rbr\<rparr>))
          else Inr gd) = Inr (gd\<lparr>mdpyes := y\<rparr>)"
  proof (cases "HasData (mdpyes gd)")
    case False
    then show ?thesis
      by (intro exI [of _ "mdpyes gd"]) (simp add: no_data_ready no_data_same_out no_data_has_ready)
  next
    case True
    with assms obtain y where
      p: "planLowestResForMDPMulti cat now frm to planMDP (mdpyes gd) = Inr (True, y)"
      by (auto simp: planRequests_pngroup_def split: sum.splits if_splits)
    from planLowestResForMDPMulti_result [OF p] obtain interval where
      v: "\<forall>k < length (mdpyes gd). mdpyes gd ! k \<noteq> []
            \<longrightarrow> (\<exists>ret \<in> set (cat (u16 k)). Valid ret frm (now - frm))"
      and m: "planToMulti cat now frm to interval (mdpyes gd) = Inr y"
      by auto
    from planToMulti_ready_same_out [OF m] valid_has_ready [OF v] True p show ?thesis
      by (intro exI [of _ y]) simp
  qed
  then obtain y where y: "rbr_ready cat frm y" "same_out y" "has_ready cat frm (mdpyes gd)"
    and step1: "(if HasData (mdpyes gd) then
            (case planLowestResForMDPMulti cat now frm to planMDP (mdpyes gd) of
               Inl e \<Rightarrow> Inl e
             | Inr (ok, rbr) \<Rightarrow>
                 if \<not> ok then Inl errUnSatisfiable else Inr (gd\<lparr>mdpyes := rbr\<rparr>))
          else Inr gd) = Inr (gd\<lparr>mdpyes := y\<rparr>)"
    by blast
  let ?gd1 = "gd\<lparr>mdpyes := y\<rparr>"
  have no1: "mdpno ?gd1 = mdpno gd" by simp
  from assms have "(case Inr ?gd1 of
        Inl e \<Rightarrow> Inl e
      | Inr gd1 \<Rightarrow>
          if HasData (mdpno gd1) then
            (case planHighestResMulti cat now frm to (mdpno gd1) of
               Inl e \<Rightarrow> Inl e
             | Inr (ok, rbr) \<Rightarrow>
                 if \<not> ok then Inl errUnSatisfiable else Inr (gd1\<lparr>mdpno := rbr\<rparr>))
          else Inr gd1) = Inr gd'"
    unfolding planRequests_pngroup_def step1 .
  then have step2: "(if HasData (mdpno gd) then
            (case planHighestResMulti cat now frm to (mdpno gd) of
               Inl e \<Rightarrow> Inl e
             | Inr (ok, rbr) \<Rightarrow>
                 if \<not> ok then Inl errUnSatisfiable else Inr (?gd1\<lparr>mdpno := rbr\<rparr>))
          else Inr ?gd1) = Inr gd'"
    unfolding sum.case no1 .
  show ?thesis
  proof (cases "HasData (mdpno gd)")
    case False
    with step2 have "gd' = ?gd1" by simp
    with y False show ?thesis
      by (simp add: gd_ready_def gd_has_ready_def no_data_ready no_data_same_out no_data_has_ready)
  next
    case True
    with step2 obtain n where
      p: "planHighestResMulti cat now frm to (mdpno gd) = Inr (True, n)"
      and gd': "gd' = ?gd1\<lparr>mdpno := n\<rparr>"
      by (auto split: sum.splits if_splits)
    from planHighestResMulti_result(2-4) [OF p] y gd' show ?thesis
      by (simp add: gd_ready_def gd_has_ready_def)
  qed
qed

lemma planRequests_pngroups_result:
  "planRequests_pngroups cat now frm to planMDP groups = Inr groups' \<Longrightarrow>
     (\<forall>(groupID, gd') \<in> set groups'.
         gd_ready cat frm gd' \<and> same_out (mdpyes gd') \<and> same_out (mdpno gd'))
     \<and> (\<forall>(groupID, gd) \<in> set groups. gd_has_ready cat frm gd)"
proof (induction groups arbitrary: groups')
  case Nil
  then show ?case by simp
next
  case (Cons p groups)
  obtain groupID gd where p: "p = (groupID, gd)" by (cases p)
  with Cons.prems obtain gd' rest' where
    g: "planRequests_pngroup cat now frm to planMDP gd = Inr gd'"
    and rest: "planRequests_pngroups cat now frm to planMDP groups = Inr rest'"
    and r: "groups' = (groupID, gd') # rest'"
    by (auto split: sum.splits)
  from planRequests_pngroup_result [OF g] Cons.IH [OF rest] r p show ?case by simp
qed

lemma planRequests_single_mdpyes_result:
  "planRequests_single_mdpyes cat now frm to planMDP ps = Inr rbr' \<Longrightarrow>
     length rbr' = length ps
     \<and> (\<forall>k < length ps.
           (snd (ps ! k) \<noteq> [] \<longrightarrow> (\<exists>ret \<in> set (cat (u16 (fst (ps ! k)))). Ready ret \<le> frm))
         \<and> (\<forall>req \<in> set (rbr' ! k). req_ready cat frm (fst (ps ! k)) req))"
proof (induction ps arbitrary: rbr')
  case Nil
  then show ?case by simp
next
  case (Cons p ps)
  obtain schemaID reqs where p: "p = (schemaID, reqs)" by (cases p)
  have "\<exists>reqs' rest'. rbr' = reqs' # rest'
      \<and> planRequests_single_mdpyes cat now frm to planMDP ps = Inr rest'
      \<and> (reqs \<noteq> [] \<longrightarrow> (\<exists>ret \<in> set (cat (u16 schemaID)). Ready ret \<le> frm))
      \<and> (\<forall>req \<in> set reqs'. req_ready cat frm schemaID req)"
  proof (cases "reqs = []")
    case True
    with Cons.prems p show ?thesis by (auto split: sum.splits)
  next
    case False
    with Cons.prems p obtain reqs' rest' where
      pl: "planLowestResForMDPSingles cat now frm to planMDP (u16 schemaID) reqs = (True, reqs')"
      and rest: "planRequests_single_mdpyes cat now frm to planMDP ps = Inr rest'"
      and r: "rbr' = reqs' # rest'"
      by (auto split: sum.splits prod.splits if_splits)
    from planLowestResForMDPSingles_result [OF pl False] obtain a where
      a: "a < length (cat (u16 schemaID))" "Ready (cat (u16 schemaID) ! a) \<le> frm"
        "reqs' = map (Plan a (cat (u16 schemaID) ! a)) reqs"
      by auto
    from a(1) have "cat (u16 schemaID) ! a \<in> set (cat (u16 schemaID))" by simp
    with a(2) have "\<exists>ret \<in> set (cat (u16 schemaID)). Ready ret \<le> frm" by blast
    moreover have "\<forall>req \<in> set reqs'. req_ready cat frm schemaID req"
      using a by (auto simp: req_ready_def)
    ultimately show ?thesis using r rest by simp
  qed
  then obtain reqs' rest' where r: "rbr' = reqs' # rest'"
    and rest: "planRequests_single_mdpyes cat now frm to planMDP ps = Inr rest'"
    and hd: "reqs \<noteq> [] \<longrightarrow> (\<exists>ret \<in> set (cat (u16 schemaID)). Ready ret \<le> frm)"
      "\<forall>req \<in> set reqs'. req_ready cat frm schemaID req"
    by blast
  from Cons.IH [OF rest] have len: "length rest' = length ps"
    and tl: "\<forall>k < length ps.
           (snd (ps ! k) \<noteq> [] \<longrightarrow> (\<exists>ret \<in> set (cat (u16 (fst (ps ! k)))). Ready ret \<le> frm))
         \<and> (\<forall>req \<in> set (rest' ! k). req_ready cat frm (fst (ps ! k)) req)"
    by simp_all
  show ?case
  proof (intro conjI allI impI)
    show "length rbr' = length (p # ps)" using len r by simp
  next
    fix k assume "k < length (p # ps)" "snd ((p # ps) ! k) \<noteq> []"
    then show "\<exists>ret \<in> set (cat (u16 (fst ((p # ps) ! k)))). Ready ret \<le> frm"
      using tl p hd(1) by (cases k) auto
  next
    fix k assume k: "k < length (p # ps)"
    show "\<forall>req \<in> set (rbr' ! k). req_ready cat frm (fst ((p # ps) ! k)) req"
    proof (cases k)
      case 0
      with hd(2) r p show ?thesis by simp
    next
      case (Suc k')
      with k tl r show ?thesis by simp
    qed
  qed
qed

lemma planRequests_single_mdpno_result:
  "planRequests_single_mdpno cat now frm to ps = Inr rbr' \<Longrightarrow>
     length rbr' = length ps
     \<and> (\<forall>k < length ps.
           (snd (ps ! k) \<noteq> [] \<longrightarrow> (\<exists>ret \<in> set (cat (u16 (fst (ps ! k)))). Ready ret \<le> frm))
         \<and> (\<forall>req \<in> set (rbr' ! k). req_ready cat frm (fst (ps ! k)) req))"
proof (induction ps arbitrary: rbr')
  case Nil
  then show ?case by simp
next
  case (Cons p ps)
  obtain schemaID reqs where p: "p = (schemaID, reqs)" by (cases p)
  have "\<exists>reqs' rest'. rbr' = reqs' # rest'
      \<and> planRequests_single_mdpno cat now frm to ps = Inr rest'
      \<and> (reqs \<noteq> [] \<longrightarrow> (\<exists>ret \<in> set (cat (u16 schemaID)). Ready ret \<le> frm))
      \<and> (\<forall>req \<in> set reqs'. req_ready cat frm schemaID req)"
  proof (cases "reqs = []")
    case True
    with Cons.prems p show ?thesis by (auto split: sum.splits)
  next
    case False
    with Cons.prems p obtain reqs' rest' where
      pl: "planHighestResSingles cat now frm to (u16 schemaID) reqs = (True, reqs')"
      and rest: "planRequests_single_mdpno cat now frm to ps = Inr rest'"
      and r: "rbr' = reqs' # rest'"
      by (auto split: sum.splits prod.splits if_splits)
    from planHighestResSingles_result [OF pl] obtain a where
      a: "a < length (cat (u16 schemaID))" "Ready (cat (u16 schemaID) ! a) \<le> frm"
        "reqs' = map (Plan a (cat (u16 schemaID) ! a)) reqs"
      by auto
    from a(1) have "cat (u16 schemaID) ! a \<in> set (cat (u16 schemaID))" by simp
    with a(2) have "\<exists>ret \<in> set (cat (u16 schemaID)). Ready ret \<le> frm" by blast
    moreover have "\<forall>req \<in> set reqs'. req_ready cat frm schemaID req"
      using a by (auto simp: req_ready_def)
    ultimately show ?thesis using r rest by simp
  qed
  then obtain reqs' rest' where r: "rbr' = reqs' # rest'"
    and rest: "planRequests_single_mdpno cat now frm to ps = Inr rest'"
    and hd: "reqs \<noteq> [] \<longrightarrow> (\<exists>ret \<in> set (cat (u16 schemaID)). Ready ret \<le> frm)"
      "\<forall>req \<in> set reqs'. req_ready cat frm schemaID req"
    by blast
  from Cons.IH [OF rest] have len: "length rest' = length ps"
    and tl: "\<forall>k < length ps.
           (snd (ps ! k) \<noteq> [] \<longrightarrow> (\<exists>ret \<in> set (cat (u16 (fst (ps ! k)))). Ready ret \<le> frm))
         \<and> (\<forall>req \<in> set (rest' ! k). req_ready cat frm (fst (ps ! k)) req)"
    by simp_all
  show ?case
  proof (intro conjI allI impI)
    show "length rbr' = length (p # ps)" using len r by simp
  next
    fix k assume "k < length (p # ps)" "snd ((p # ps) ! k) \<noteq> []"
    then show "\<exists>ret \<in> set (cat (u16 (fst ((p # ps) ! k)))). Ready ret \<le> frm"
      using tl p hd(1) by (cases k) auto
  next
    fix k assume k: "k < length (p # ps)"
    show "\<forall>req \<in> set (rbr' ! k). req_ready cat frm (fst ((p # ps) ! k)) req"
    proof (cases k)
      case 0
      with hd(2) r p show ?thesis by simp
    next
      case (Suc k')
      with k tl r show ?thesis by simp
    qed
  qed
qed

lemma planRequests_initial_result:
  assumes "planRequests_initial cat now frm to rp planMDP = Inr rp1"
  shows "plan_ready cat frm rp1 \<and> groups_same_out rp1 \<and> plan_has_ready cat frm rp"
proof -
  from assms obtain groups' yes' no' where
    g: "planRequests_pngroups cat now frm to planMDP (pngroups rp) = Inr groups'"
    and y: "planRequests_single_mdpyes cat now frm to planMDP (enumerate 0 (mdpyes (single rp)))
              = Inr yes'"
    and n: "planRequests_single_mdpno cat now frm to (enumerate 0 (mdpno (single rp))) = Inr no'"
    and rp1: "rp1 = rp\<lparr>pngroups := groups', single := \<lparr>mdpyes = yes', mdpno = no'\<rparr>\<rparr>"
    by (auto simp: planRequests_initial_def split: sum.splits)
  from planRequests_single_mdpyes_result [OF y]
  have yr: "rbr_ready cat frm yes'" "has_ready cat frm (mdpyes (single rp))"
    by (simp_all add: rbr_ready_def has_ready_def)
  from planRequests_single_mdpno_result [OF n]
  have nr: "rbr_ready cat frm no'" "has_ready cat frm (mdpno (single rp))"
    by (simp_all add: rbr_ready_def has_ready_def)
  from planRequests_pngroups_result [OF g] yr nr rp1 show ?thesis
    by (auto simp: plan_ready_def groups_same_out_def plan_has_ready_def gd_ready_def
        gd_has_ready_def)
qed

subsection \<open>What the reductions of the soft limit preserve\<close>

lemma set_AList_update:
  "p \<in> set (AList.update k v al) \<Longrightarrow> p = (k, v) \<or> p \<in> set al"
  by (induction al) (auto split: if_splits)

lemma lookup_group_cases:
  "lookup_group groups groupID = \<lparr>mdpyes = [], mdpno = []\<rparr>
   \<or> (groupID, lookup_group groups groupID) \<in> set groups"
  by (auto simp: lookup_group_def dest: map_of_SomeD split: option.splits)

lemma rbr_ready_Nil [simp]: "rbr_ready cat frm []"
  by (simp add: rbr_ready_def)

lemma same_out_Nil [simp]: "same_out []"
  by (simp add: same_out_def)

lemma reduceResMulti_ready_same_out:
  assumes "reduceResMulti cat now frm to rbr = Inr (ok, rbr')"
    and "rbr_ready cat frm rbr" "same_out rbr"
  shows "rbr_ready cat frm rbr' \<and> same_out rbr'"
  using reduceResMulti_result [OF assms(1)] assms(2,3) planToMulti_ready_same_out by blast

lemma reduce_group_invariant:
  assumes inv: "plan_ready cat frm rp" "groups_same_out rp"
    and red: "reduceResMulti cat now frm to (mdpno (lookup_group (pngroups rp) groupID))
                = Inr (ok, rbr)"
  shows "plan_ready cat frm
           (rp\<lparr>pngroups := AList.update groupID
                   ((lookup_group (pngroups rp) groupID)\<lparr>mdpno := rbr\<rparr>) (pngroups rp)\<rparr>)
       \<and> groups_same_out
           (rp\<lparr>pngroups := AList.update groupID
                   ((lookup_group (pngroups rp) groupID)\<lparr>mdpno := rbr\<rparr>) (pngroups rp)\<rparr>)"
proof -
  let ?data = "lookup_group (pngroups rp) groupID"
  let ?data' = "?data\<lparr>mdpno := rbr\<rparr>"
  have data: "gd_ready cat frm ?data \<and> same_out (mdpyes ?data) \<and> same_out (mdpno ?data)"
    using lookup_group_cases [of "pngroups rp" groupID]
  proof
    assume "?data = \<lparr>mdpyes = [], mdpno = []\<rparr>"
    then show ?thesis by (simp add: gd_ready_def)
  next
    assume "(groupID, ?data) \<in> set (pngroups rp)"
    with inv show ?thesis by (auto simp: plan_ready_def groups_same_out_def)
  qed
  with reduceResMulti_ready_same_out [OF red]
  have data': "gd_ready cat frm ?data' \<and> same_out (mdpyes ?data') \<and> same_out (mdpno ?data')"
    by (simp add: gd_ready_def)
  have "gd_ready cat frm gd \<and> same_out (mdpyes gd) \<and> same_out (mdpno gd)"
    if "(g, gd) \<in> set (AList.update groupID ?data' (pngroups rp))" for g gd
    using set_AList_update [OF that]
  proof
    assume "(g, gd) = (groupID, ?data')"
    with data' show ?thesis by simp
  next
    assume "(g, gd) \<in> set (pngroups rp)"
    with inv show ?thesis by (auto simp: plan_ready_def groups_same_out_def)
  qed
  with inv(1) show ?thesis
    by (auto simp: plan_ready_def groups_same_out_def)
qed

lemma planRequests_reduce_pngroups_invariant:
  "planRequests_reduce_pngroups cat now frm to mpprSoft groupIDs (rp, progress)
     = Inr (honored, rp', progress') \<Longrightarrow>
   plan_ready cat frm rp \<Longrightarrow> groups_same_out rp \<Longrightarrow>
   plan_ready cat frm rp' \<and> groups_same_out rp'"
proof (induction groupIDs arbitrary: rp progress)
  case Nil
  then show ?case by simp
next
  case (Cons groupID groupIDs)
  let ?data = "lookup_group (pngroups rp) groupID"
  show ?case
  proof (cases "0 < length (mdpno ?data)")
    case False
    with Cons.prems(1)
    have "planRequests_reduce_pngroups cat now frm to mpprSoft groupIDs (rp, progress)
            = Inr (honored, rp', progress')"
      by (simp add: Let_def)
    from Cons.IH [OF this Cons.prems(2,3)] show ?thesis .
  next
    case True
    with Cons.prems(1) obtain ok rbr where
      red: "reduceResMulti cat now frm to (mdpno ?data) = Inr (ok, rbr)"
      by (auto simp: Let_def split: sum.splits)
    let ?rp1 = "rp\<lparr>pngroups := AList.update groupID (?data\<lparr>mdpno := rbr\<rparr>) (pngroups rp)\<rparr>"
    from reduce_group_invariant [OF Cons.prems(2,3) red]
    have inv1: "plan_ready cat frm ?rp1" "groups_same_out ?rp1" by simp_all
    from Cons.prems(1) True red
    have "rp' = ?rp1
        \<or> (\<exists>progress1. planRequests_reduce_pngroups cat now frm to mpprSoft groupIDs
              (?rp1, progress1) = Inr (honored, rp', progress'))"
      by (auto simp: Let_def split: if_splits)
    then show ?thesis
    proof
      assume "rp' = ?rp1"
      with inv1 show ?thesis by simp
    next
      assume "\<exists>progress1. planRequests_reduce_pngroups cat now frm to mpprSoft groupIDs
              (?rp1, progress1) = Inr (honored, rp', progress')"
      then obtain progress1 where
        "planRequests_reduce_pngroups cat now frm to mpprSoft groupIDs (?rp1, progress1)
           = Inr (honored, rp', progress')" ..
      from Cons.IH [OF this inv1] show ?thesis .
    qed
  qed
qed

lemma rbr_ready_update:
  "rbr_ready cat frm rbr \<Longrightarrow> \<forall>req \<in> set reqs'. req_ready cat frm schemaID req \<Longrightarrow>
     rbr_ready cat frm (rbr[schemaID := reqs'])"
  unfolding rbr_ready_def
proof (intro allI impI ballI)
  fix k req
  assume a: "\<forall>schemaID < length rbr. \<forall>req \<in> set (rbr ! schemaID). req_ready cat frm schemaID req"
    and b: "\<forall>req \<in> set reqs'. req_ready cat frm schemaID req"
    and k: "k < length (rbr[schemaID := reqs'])" and r: "req \<in> set (rbr[schemaID := reqs'] ! k)"
  show "req_ready cat frm k req"
  proof (cases "k = schemaID")
    case True
    with k r b show ?thesis by simp
  next
    case False
    with k r a show ?thesis by simp
  qed
qed

lemma reduceResSingles_ready:
  assumes "reduceResSingles cat now frm to (u16 schemaID) reqs = (ok, reqs')"
    and "\<forall>req \<in> set reqs. req_ready cat frm schemaID req"
  shows "\<forall>req \<in> set reqs'. req_ready cat frm schemaID req"
  using reduceResSingles_result [OF assms(1)]
proof
  assume "reqs' = reqs"
  with assms(2) show ?thesis by simp
next
  assume "\<exists>a < length (cat (u16 schemaID)). Valid (cat (u16 schemaID) ! a) frm (now - frm)
             \<and> reqs' = map (Plan a (cat (u16 schemaID) ! a)) reqs"
  then show ?thesis by (auto simp: req_ready_def Valid_def)
qed

lemma planRequests_reduce_singles_invariant:
  "planRequests_reduce_singles cat now frm to mpprSoft ps (rp, progress)
     = Inr (honored, rp', progress') \<Longrightarrow>
   \<forall>p \<in> set ps. \<forall>req \<in> set (snd p). req_ready cat frm (fst p) req \<Longrightarrow>
   plan_ready cat frm rp \<Longrightarrow> groups_same_out rp \<Longrightarrow>
   plan_ready cat frm rp' \<and> groups_same_out rp'"
proof (induction ps arbitrary: rp progress)
  case Nil
  then show ?case by simp
next
  case (Cons p ps)
  obtain schemaID reqs where p: "p = (schemaID, reqs)" by (cases p)
  from Cons.prems(2) have rest: "\<forall>p \<in> set ps. \<forall>req \<in> set (snd p). req_ready cat frm (fst p) req"
    by simp
  show ?case
  proof (cases "0 < length reqs")
    case False
    with Cons.prems(1) p
    have "planRequests_reduce_singles cat now frm to mpprSoft ps (rp, progress)
            = Inr (honored, rp', progress')"
      by simp
    from Cons.IH [OF this rest Cons.prems(3,4)] show ?thesis .
  next
    case True
    obtain ok reqs' where red: "reduceResSingles cat now frm to (u16 schemaID) reqs = (ok, reqs')"
      by (cases "reduceResSingles cat now frm to (u16 schemaID) reqs")
    let ?rp1 = "rp\<lparr>single := (single rp)\<lparr>mdpno := (mdpno (single rp))[schemaID := reqs']\<rparr>\<rparr>"
    from Cons.prems(2) p have "\<forall>req \<in> set reqs. req_ready cat frm schemaID req" by simp
    from reduceResSingles_ready [OF red this] Cons.prems(3)
    have "plan_ready cat frm ?rp1"
      by (simp add: plan_ready_def gd_ready_def rbr_ready_update)
    moreover from Cons.prems(4) have "groups_same_out ?rp1"
      by (simp add: groups_same_out_def)
    ultimately have inv1: "plan_ready cat frm ?rp1" "groups_same_out ?rp1" .
    from Cons.prems(1) True red p
    have "rp' = ?rp1
        \<or> (\<exists>progress1. planRequests_reduce_singles cat now frm to mpprSoft ps
              (?rp1, progress1) = Inr (honored, rp', progress'))"
      by (auto simp: Let_def split: if_splits)
    then show ?thesis
    proof
      assume "rp' = ?rp1"
      with inv1 show ?thesis by simp
    next
      assume "\<exists>progress1. planRequests_reduce_singles cat now frm to mpprSoft ps
              (?rp1, progress1) = Inr (honored, rp', progress')"
      then obtain progress1 where
        "planRequests_reduce_singles cat now frm to mpprSoft ps (?rp1, progress1)
           = Inr (honored, rp', progress')" ..
      from Cons.IH [OF this rest inv1] show ?thesis .
    qed
  qed
qed

lemma planRequests_pass_invariant:
  assumes "planRequests_pass cat now frm to mpprSoft groupIDs rp = Inr (honored, rp', progress')"
    and "plan_ready cat frm rp" "groups_same_out rp"
  shows "plan_ready cat frm rp' \<and> groups_same_out rp'"
proof -
  from assms(1) obtain h1 rp1 p1 where
    g: "planRequests_reduce_pngroups cat now frm to mpprSoft groupIDs (rp, False)
          = Inr (h1, rp1, p1)"
    by (auto simp: planRequests_pass_def split: sum.splits)
  from planRequests_reduce_pngroups_invariant [OF g assms(2,3)]
  have inv1: "plan_ready cat frm rp1" "groups_same_out rp1" by simp_all
  show ?thesis
  proof (cases h1)
    case True
    with assms(1) g have "rp' = rp1" by (simp add: planRequests_pass_def)
    with inv1 show ?thesis by simp
  next
    case False
    with assms(1) g
    have s: "planRequests_reduce_singles cat now frm to mpprSoft
               (enumerate 0 (mdpno (single rp1))) (rp1, p1) = Inr (honored, rp', progress')"
      by (simp add: planRequests_pass_def)
    have "\<forall>p \<in> set (enumerate 0 (mdpno (single rp1))).
            \<forall>req \<in> set (snd p). req_ready cat frm (fst p) req"
      using inv1(1)
      by (auto simp: plan_ready_def gd_ready_def rbr_ready_def in_set_enumerate_eq)
    from planRequests_reduce_singles_invariant [OF s this inv1] show ?thesis .
  qed
qed

lemma planRequests_soft_invariant:
  assumes "planRequests_soft cat now frm to mpprSoft groupIDs rp progress = Some (Inr rp')"
  shows "plan_ready cat frm rp \<and> groups_same_out rp
           \<longrightarrow> plan_ready cat frm rp' \<and> groups_same_out rp'"
proof -
  have "\<forall>r'. (Inr rp' :: error + ReqsPlan) = Inr r' \<longrightarrow> plan_ready cat frm rp \<and> groups_same_out rp
          \<longrightarrow> plan_ready cat frm r' \<and> groups_same_out r'"
  proof (rule planRequests_soft.raw_induct
    [where P = "\<lambda>c (n :: u32) f (t :: u32) (s :: int) (g :: nat list) r (p :: bool) y.
        \<forall>r'. y = Inr r' \<longrightarrow> plan_ready c f r \<and> groups_same_out r
          \<longrightarrow> plan_ready c f r' \<and> groups_same_out r'", OF _ assms])
  fix soft cat now frm to mpprSoft groupIDs rp progress y
  assume IH: "\<And>cat now frm to mpprSoft groupIDs rp progress y.
        soft cat now frm to mpprSoft groupIDs rp progress = Some y \<Longrightarrow>
        \<forall>r'. y = Inr r' \<longrightarrow> plan_ready cat frm rp \<and> groups_same_out rp
          \<longrightarrow> plan_ready cat frm r' \<and> groups_same_out r'"
    and step: "(if u32 mpprSoft < rp_PointsFetch rp \<and> progress
      then case planRequests_pass cat now frm to mpprSoft groupIDs rp of
           Inl e \<Rightarrow> Some (Inl e)
           | Inr (honored, rp', progress') \<Rightarrow>
               if honored then Some (Inr rp')
               else soft cat now frm to mpprSoft groupIDs rp' progress'
      else Some (Inr rp)) = Some y"
  show "\<forall>r'. y = Inr r' \<longrightarrow> plan_ready cat frm rp \<and> groups_same_out rp
          \<longrightarrow> plan_ready cat frm r' \<and> groups_same_out r'"
  proof (intro allI impI)
    fix r' assume y: "y = Inr r'" and inv: "plan_ready cat frm rp \<and> groups_same_out rp"
    show "plan_ready cat frm r' \<and> groups_same_out r'"
    proof (cases "u32 mpprSoft < rp_PointsFetch rp \<and> progress")
      case False
      with step y have "r' = rp" by simp
      with inv show ?thesis by simp
    next
      case True
      with step y obtain honored rp1 p1 where
        pass: "planRequests_pass cat now frm to mpprSoft groupIDs rp = Inr (honored, rp1, p1)"
        by (auto split: sum.splits)
      from planRequests_pass_invariant [OF pass] inv
      have inv1: "plan_ready cat frm rp1 \<and> groups_same_out rp1" by simp
      show ?thesis
      proof (cases honored)
        case h: True
        with step y True pass have "r' = rp1" by simp
        with inv1 show ?thesis by simp
      next
        case h: False
        with step y True pass
        have "soft cat now frm to mpprSoft groupIDs rp1 p1 = Some (Inr r')" by simp
        from IH [OF this] inv1 show ?thesis by simp
      qed
    qed
  qed
  qed
  then show ?thesis by simp
qed

lemma planRequests_result:
  assumes "planRequests cat now frm to reqs planMDP mpprSoft mpprHard = Some (Inr rp')"
  shows "plan_ready cat frm rp' \<and> groups_same_out rp' \<and> plan_has_ready cat frm reqs"
proof -
  from assms have s12: "planRequests_steps12 cat now frm to reqs planMDP mpprSoft = Some (Inr rp')"
    by (auto simp: planRequests_def split: option.splits sum.splits if_splits)
  then obtain rp1 where
    init: "planRequests_initial cat now frm to reqs planMDP = Inr rp1"
    and soft: "(if 0 < mpprSoft
          then planRequests_soft cat now frm to mpprSoft (pngroupsByLen rp1) rp1 True
          else Some (Inr rp1)) = Some (Inr rp')"
    by (auto simp: planRequests_steps12_def split: sum.splits)
  from planRequests_initial_result [OF init]
  have inv1: "plan_ready cat frm rp1 \<and> groups_same_out rp1" and has: "plan_has_ready cat frm reqs"
    by simp_all
  have "plan_ready cat frm rp' \<and> groups_same_out rp'"
  proof (cases "0 < mpprSoft")
    case True
    with soft have "planRequests_soft cat now frm to mpprSoft (pngroupsByLen rp1) rp1 True
        = Some (Inr rp')" by simp
    from planRequests_soft_invariant [OF this] inv1 show ?thesis by simp
  next
    case False
    with soft inv1 show ?thesis by simp
  qed
  with has show ?thesis by simp
qed

subsection \<open>A catalogue without a valid retention\<close>



subsection \<open>Validity of the retentions chosen\<close>

lemma findHighestResRet_loop_valid:
  "findHighestResRet_loop rets i frm ttl acc = Some (a, ret) \<Longrightarrow>
     Valid ret frm ttl \<or> (\<forall>r \<in> set rets. \<not> Valid r frm ttl)"
proof (induction rets arbitrary: i acc)
  case Nil
  then show ?case by simp
next
  case (Cons r rets)
  show ?case
  proof (cases "frm < Ready r")
    case True
    then have nv: "\<not> Valid r frm ttl" by (simp add: Valid_def not_le)
    from True Cons.prems have "findHighestResRet_loop rets (Suc i) frm ttl acc = Some (a, ret)"
      by simp
    from Cons.IH [OF this] nv show ?thesis by auto
  next
    case False
    show ?thesis
    proof (cases "ttl \<le> u32 (MaxRetention r)")
      case True
      with False Cons.prems have "ret = r" by simp
      with True False show ?thesis by (simp add: Valid_def not_less)
    next
      case short: False
      then have nv: "\<not> Valid r frm ttl" by (simp add: Valid_def)
      from short False Cons.prems
      have "findHighestResRet_loop rets (Suc i) frm ttl (Some (i, r)) = Some (a, ret)" by simp
      from Cons.IH [OF this] nv show ?thesis by auto
    qed
  qed
qed

lemma findHighestResRet_valid:
  "findHighestResRet rets frm ttl = Some (a, ret) \<Longrightarrow>
     Valid ret frm ttl \<or> (\<forall>r \<in> set rets. \<not> Valid r frm ttl)"
  unfolding findHighestResRet_def by (rule findHighestResRet_loop_valid)

lemma req_valid_imp_unless_none:
  "req_valid cat frm ttl schemaID req \<Longrightarrow> req_valid_unless_none cat frm ttl schemaID req"
  by (simp add: req_valid_def req_valid_unless_none_def)

lemma rbr_valid_imp_unless_none:
  "rbr_valid cat frm ttl rbr \<Longrightarrow> rbr_valid_unless_none cat frm ttl rbr"
  by (simp add: rbr_valid_def rbr_valid_unless_none_def req_valid_imp_unless_none)

lemma req_valid_unless_none_Plan:
  assumes "findHighestResRet (cat (u16 schemaID)) frm ttl = Some (a, ret)"
  shows "req_valid_unless_none cat frm ttl schemaID (Plan a ret req)"
proof -
  from findHighestResRet_Some [OF assms]
  have a: "a < length (cat (u16 schemaID))" "ret = cat (u16 schemaID) ! a" by auto
  with findHighestResRet_valid [OF assms] show ?thesis
    by (auto simp: req_valid_unless_none_def)
qed

lemma planHighestResSingles_valid:
  assumes "planHighestResSingles cat now frm to (u16 schemaID) reqs = (True, reqs')"
  shows "\<forall>req \<in> set reqs'. req_valid_unless_none cat frm (now - frm) schemaID req"
proof (cases "findHighestResRet (cat (u16 schemaID)) frm (now - frm)")
  case None
  with assms show ?thesis by (simp add: planHighestResSingles_def)
next
  case (Some found)
  obtain a ret where found: "found = (a, ret)" by (cases found)
  with assms Some have "reqs' = map (Plan a ret) reqs"
    by (simp add: planHighestResSingles_def)
  note this
  from Some found have "findHighestResRet (cat (u16 schemaID)) frm (now - frm) = Some (a, ret)"
    by simp
  from req_valid_unless_none_Plan [where cat = cat and schemaID = schemaID, OF this]
    \<open>reqs' = map (Plan a ret) reqs\<close>
  show ?thesis by auto
qed

lemma planRequests_single_mdpno_valid:
  "planRequests_single_mdpno cat now frm to ps = Inr rbr' \<Longrightarrow>
     \<forall>k < length ps. \<forall>req \<in> set (rbr' ! k).
        req_valid_unless_none cat frm (now - frm) (fst (ps ! k)) req"
proof (induction ps arbitrary: rbr')
  case Nil
  then show ?case by simp
next
  case (Cons p ps)
  obtain schemaID reqs where p: "p = (schemaID, reqs)" by (cases p)
  have "\<exists>reqs' rest'. rbr' = reqs' # rest'
      \<and> planRequests_single_mdpno cat now frm to ps = Inr rest'
      \<and> (\<forall>req \<in> set reqs'. req_valid_unless_none cat frm (now - frm) schemaID req)"
  proof (cases "reqs = []")
    case True
    with Cons.prems p show ?thesis by (auto split: sum.splits)
  next
    case False
    with Cons.prems p obtain reqs' rest' where
      pl: "planHighestResSingles cat now frm to (u16 schemaID) reqs = (True, reqs')"
      and rest: "planRequests_single_mdpno cat now frm to ps = Inr rest'"
      and r: "rbr' = reqs' # rest'"
      by (auto split: sum.splits prod.splits if_splits)
    from planHighestResSingles_valid [OF pl] r rest show ?thesis by simp
  qed
  then obtain reqs' rest' where r: "rbr' = reqs' # rest'"
    and rest: "planRequests_single_mdpno cat now frm to ps = Inr rest'"
    and hd: "\<forall>req \<in> set reqs'. req_valid_unless_none cat frm (now - frm) schemaID req"
    by blast
  note tl = Cons.IH [OF rest]
  show ?case
  proof (intro allI impI ballI)
    fix k req
    assume k: "k < length (p # ps)" and req: "req \<in> set (rbr' ! k)"
    show "req_valid_unless_none cat frm (now - frm) (fst ((p # ps) ! k)) req"
    proof (cases k)
      case 0
      with hd r p req show ?thesis by simp
    next
      case (Suc k')
      with k tl r req show ?thesis by simp
    qed
  qed
qed

lemma planHighestResMulti_loop_valid:
  "planHighestResMulti_loop cat frm ttl ps l = (True, rbr', l') \<Longrightarrow>
     \<forall>k < length ps. \<forall>req \<in> set (rbr' ! k).
        req_valid_unless_none cat frm ttl (fst (ps ! k)) req"
proof (induction ps arbitrary: l rbr' l')
  case Nil
  then show ?case by simp
next
  case (Cons p ps)
  obtain schemaID reqs where p: "p = (schemaID, reqs)" by (cases p)
  have "\<exists>reqs' rest' l1. rbr' = reqs' # rest'
      \<and> planHighestResMulti_loop cat frm ttl ps l1 = (True, rest', l')
      \<and> (\<forall>req \<in> set reqs'. req_valid_unless_none cat frm ttl schemaID req)"
  proof (cases "reqs = []")
    case True
    with Cons.prems p show ?thesis by (auto split: prod.splits)
  next
    case False
    with Cons.prems p obtain a ret rest' where
      f: "findHighestResRet (cat (u16 schemaID)) frm ttl = Some (a, ret)"
      and rest: "planHighestResMulti_loop cat frm ttl ps
                   (seenIntervals_add (map (Plan a ret) reqs) l) = (True, rest', l')"
      and r: "rbr' = map (Plan a ret) reqs # rest'"
      by (auto simp: Let_def split: option.splits prod.splits)
    have "\<forall>req \<in> set (map (Plan a ret) reqs). req_valid_unless_none cat frm ttl schemaID req"
      using req_valid_unless_none_Plan [where cat = cat and schemaID = schemaID, OF f] by auto
    with r rest show ?thesis by blast
  qed
  then obtain reqs' rest' l1 where r: "rbr' = reqs' # rest'"
    and rest: "planHighestResMulti_loop cat frm ttl ps l1 = (True, rest', l')"
    and hd: "\<forall>req \<in> set reqs'. req_valid_unless_none cat frm ttl schemaID req"
    by blast
  note tl = Cons.IH [OF rest]
  show ?case
  proof (intro allI impI ballI)
    fix k req
    assume k: "k < length (p # ps)" and req: "req \<in> set (rbr' ! k)"
    show "req_valid_unless_none cat frm ttl (fst ((p # ps) ! k)) req"
    proof (cases k)
      case 0
      with hd r p req show ?thesis by simp
    next
      case (Suc k')
      with k tl r req show ?thesis by simp
    qed
  qed
qed

lemma planHighestResMulti_valid:
  assumes "planHighestResMulti cat now frm to rbr = Inr (True, rbr')"
  shows "rbr_valid_unless_none cat frm (now - frm) rbr'"
proof -
  from assms obtain rbr1 l interval where
    loop: "planHighestResMulti_loop cat frm (now - frm) (enumerate 0 rbr) [] = (True, rbr1, l)"
    and rbr': "rbr' = map (\<lambda>(schemaID, reqs). map (AdjustTo interval frm (cat (u16 schemaID))) reqs)
                        (enumerate 0 rbr1)"
    by (auto simp: planHighestResMulti_def split: prod.splits if_splits sum.splits)
  from planHighestResMulti_loop_result [OF loop]
  have len: "length rbr1 = length rbr" by simp
  from planHighestResMulti_loop_valid [OF loop]
  have all: "\<forall>k < length rbr. \<forall>req \<in> set (rbr1 ! k).
      req_valid_unless_none cat frm (now - frm) k req"
    by simp
  have nth: "rbr' ! k = map (AdjustTo interval frm (cat (u16 k))) (rbr1 ! k)" if "k < length rbr" for k
    using that len rbr' by simp
  show ?thesis
    unfolding rbr_valid_unless_none_def
  proof (intro allI impI ballI)
    fix k req assume k: "k < length rbr'" and "req \<in> set (rbr' ! k)"
    with nth [of k] len rbr' obtain req1 where
      r1: "req1 \<in> set (rbr1 ! k)" "req = AdjustTo interval frm (cat (u16 k)) req1" by auto
    from k len rbr' have kl: "k < length rbr" by simp
    from all kl r1(1) have "req_valid_unless_none cat frm (now - frm) k req1" by simp
    with r1(2) show "req_valid_unless_none cat frm (now - frm) k req"
      by (simp add: req_valid_unless_none_def)
  qed
qed

lemma planToMulti_valid:
  assumes "planToMulti cat now frm to interval rbr = Inr rbr'"
  shows "rbr_valid cat frm (now - frm) rbr'"
  unfolding rbr_valid_def req_valid_def
proof (intro allI impI ballI conjI)
  fix k req assume k: "k < length rbr'" and req: "req \<in> set (rbr' ! k)"
  from planToMulti_result(1) [OF assms] k have kl: "k < length rbr" by simp
  from planToMulti_result(2) [OF assms] k req have "req_ready cat frm k req"
    by (simp add: rbr_ready_def)
  then show "Archive req < length (cat (u16 k))" by (simp add: req_ready_def)
  from planToMulti_result(5) [OF assms] kl req
  show "Valid (cat (u16 k) ! Archive req) frm (now - frm)" by simp
qed

lemma no_data_valid: "\<not> HasData rbr \<Longrightarrow> rbr_valid cat frm ttl rbr"
  by (simp add: rbr_valid_def no_data_buckets)

lemma rbr_valid_Nil [simp]: "rbr_valid cat frm ttl []"
  by (simp add: rbr_valid_def)

lemma rbr_valid_unless_none_Nil [simp]: "rbr_valid_unless_none cat frm ttl []"
  by (simp add: rbr_valid_unless_none_def)

lemma reduceResMulti_valid:
  assumes "reduceResMulti cat now frm to rbr = Inr (ok, rbr')"
    and "rbr_valid_unless_none cat frm (now - frm) rbr"
  shows "rbr_valid_unless_none cat frm (now - frm) rbr'"
  using reduceResMulti_result [OF assms(1)] assms(2) planToMulti_valid rbr_valid_imp_unless_none
  by blast

lemma reduceResSingles_valid:
  assumes "reduceResSingles cat now frm to (u16 schemaID) reqs = (ok, reqs')"
    and "\<forall>req \<in> set reqs. req_valid_unless_none cat frm (now - frm) schemaID req"
  shows "\<forall>req \<in> set reqs'. req_valid_unless_none cat frm (now - frm) schemaID req"
  using reduceResSingles_result [OF assms(1)]
proof
  assume "reqs' = reqs"
  with assms(2) show ?thesis by simp
next
  assume "\<exists>a < length (cat (u16 schemaID)). Valid (cat (u16 schemaID) ! a) frm (now - frm)
             \<and> reqs' = map (Plan a (cat (u16 schemaID) ! a)) reqs"
  then show ?thesis by (auto simp: req_valid_unless_none_def)
qed

lemma rbr_valid_unless_none_update:
  "rbr_valid_unless_none cat frm ttl rbr \<Longrightarrow>
   \<forall>req \<in> set reqs'. req_valid_unless_none cat frm ttl schemaID req \<Longrightarrow>
     rbr_valid_unless_none cat frm ttl (rbr[schemaID := reqs'])"
  unfolding rbr_valid_unless_none_def
proof (intro allI impI ballI)
  fix k req
  assume a: "\<forall>schemaID < length rbr. \<forall>req \<in> set (rbr ! schemaID).
      req_valid_unless_none cat frm ttl schemaID req"
    and b: "\<forall>req \<in> set reqs'. req_valid_unless_none cat frm ttl schemaID req"
    and k: "k < length (rbr[schemaID := reqs'])" and r: "req \<in> set (rbr[schemaID := reqs'] ! k)"
  show "req_valid_unless_none cat frm ttl k req"
  proof (cases "k = schemaID")
    case True
    with k r b show ?thesis by simp
  next
    case False
    with k r a show ?thesis by simp
  qed
qed

subsection \<open>Validity through the plan\<close>

lemma planRequests_pngroup_valid:
  assumes "planRequests_pngroup cat now frm to planMDP gd = Inr gd'"
  shows "rbr_valid cat frm (now - frm) (mdpyes gd')
         \<and> rbr_valid_unless_none cat frm (now - frm) (mdpno gd')"
proof -
  have yes: "\<exists>y. rbr_valid cat frm (now - frm) y
      \<and> (if HasData (mdpyes gd) then
            (case planLowestResForMDPMulti cat now frm to planMDP (mdpyes gd) of
               Inl e \<Rightarrow> Inl e
             | Inr (ok, rbr) \<Rightarrow>
                 if \<not> ok then Inl errUnSatisfiable else Inr (gd\<lparr>mdpyes := rbr\<rparr>))
          else Inr gd) = Inr (gd\<lparr>mdpyes := y\<rparr>)"
  proof (cases "HasData (mdpyes gd)")
    case False
    then show ?thesis
      by (intro exI [of _ "mdpyes gd"]) (simp add: no_data_valid)
  next
    case True
    with assms obtain y where
      p: "planLowestResForMDPMulti cat now frm to planMDP (mdpyes gd) = Inr (True, y)"
      by (auto simp: planRequests_pngroup_def split: sum.splits if_splits)
    from planLowestResForMDPMulti_result [OF p] obtain interval where
      m: "planToMulti cat now frm to interval (mdpyes gd) = Inr y"
      by auto
    from planToMulti_valid [OF m] True p show ?thesis
      by (intro exI [of _ y]) simp
  qed
  then obtain y where y: "rbr_valid cat frm (now - frm) y"
    and step1: "(if HasData (mdpyes gd) then
            (case planLowestResForMDPMulti cat now frm to planMDP (mdpyes gd) of
               Inl e \<Rightarrow> Inl e
             | Inr (ok, rbr) \<Rightarrow>
                 if \<not> ok then Inl errUnSatisfiable else Inr (gd\<lparr>mdpyes := rbr\<rparr>))
          else Inr gd) = Inr (gd\<lparr>mdpyes := y\<rparr>)"
    by blast
  let ?gd1 = "gd\<lparr>mdpyes := y\<rparr>"
  have no1: "mdpno ?gd1 = mdpno gd" by simp
  from assms have "(case Inr ?gd1 of
        Inl e \<Rightarrow> Inl e
      | Inr gd1 \<Rightarrow>
          if HasData (mdpno gd1) then
            (case planHighestResMulti cat now frm to (mdpno gd1) of
               Inl e \<Rightarrow> Inl e
             | Inr (ok, rbr) \<Rightarrow>
                 if \<not> ok then Inl errUnSatisfiable else Inr (gd1\<lparr>mdpno := rbr\<rparr>))
          else Inr gd1) = Inr gd'"
    unfolding planRequests_pngroup_def step1 .
  then have step2: "(if HasData (mdpno gd) then
            (case planHighestResMulti cat now frm to (mdpno gd) of
               Inl e \<Rightarrow> Inl e
             | Inr (ok, rbr) \<Rightarrow>
                 if \<not> ok then Inl errUnSatisfiable else Inr (?gd1\<lparr>mdpno := rbr\<rparr>))
          else Inr ?gd1) = Inr gd'"
    unfolding sum.case no1 .
  show ?thesis
  proof (cases "HasData (mdpno gd)")
    case False
    with step2 have "gd' = ?gd1" by simp
    with y False show ?thesis
      by (simp add: no_data_valid rbr_valid_imp_unless_none)
  next
    case True
    with step2 obtain n where
      p: "planHighestResMulti cat now frm to (mdpno gd) = Inr (True, n)"
      and gd': "gd' = ?gd1\<lparr>mdpno := n\<rparr>"
      by (auto split: sum.splits if_splits)
    from planHighestResMulti_valid [OF p] y gd' show ?thesis by simp
  qed
qed

lemma planRequests_pngroups_valid:
  "planRequests_pngroups cat now frm to planMDP groups = Inr groups' \<Longrightarrow>
     \<forall>(groupID, gd') \<in> set groups'.
         rbr_valid cat frm (now - frm) (mdpyes gd')
         \<and> rbr_valid_unless_none cat frm (now - frm) (mdpno gd')"
proof (induction groups arbitrary: groups')
  case Nil
  then show ?case by simp
next
  case (Cons p groups)
  obtain groupID gd where p: "p = (groupID, gd)" by (cases p)
  with Cons.prems obtain gd' rest' where
    g: "planRequests_pngroup cat now frm to planMDP gd = Inr gd'"
    and rest: "planRequests_pngroups cat now frm to planMDP groups = Inr rest'"
    and r: "groups' = (groupID, gd') # rest'"
    by (auto split: sum.splits)
  from planRequests_pngroup_valid [OF g] Cons.IH [OF rest] r show ?case by simp
qed

lemma planRequests_initial_valid:
  assumes "planRequests_initial cat now frm to rp planMDP = Inr rp1"
  shows "plan_valid_where_possible cat frm (now - frm) rp1"
proof -
  from assms obtain groups' yes' no' where
    g: "planRequests_pngroups cat now frm to planMDP (pngroups rp) = Inr groups'"
    and n: "planRequests_single_mdpno cat now frm to (enumerate 0 (mdpno (single rp))) = Inr no'"
    and rp1: "rp1 = rp\<lparr>pngroups := groups', single := \<lparr>mdpyes = yes', mdpno = no'\<rparr>\<rparr>"
    by (auto simp: planRequests_initial_def split: sum.splits)
  from planRequests_single_mdpno_result [OF n] have "length no' = length (mdpno (single rp))"
    by simp
  with planRequests_single_mdpno_valid [OF n]
  have "rbr_valid_unless_none cat frm (now - frm) no'"
    by (simp add: rbr_valid_unless_none_def)
  with planRequests_pngroups_valid [OF g] rp1 show ?thesis
    by (simp add: plan_valid_where_possible_def)
qed

lemma reduce_group_valid:
  assumes inv: "plan_valid_where_possible cat frm (now - frm) rp"
    and red: "reduceResMulti cat now frm to (mdpno (lookup_group (pngroups rp) groupID))
                = Inr (ok, rbr)"
  shows "plan_valid_where_possible cat frm (now - frm)
           (rp\<lparr>pngroups := AList.update groupID
                   ((lookup_group (pngroups rp) groupID)\<lparr>mdpno := rbr\<rparr>) (pngroups rp)\<rparr>)"
proof -
  let ?data = "lookup_group (pngroups rp) groupID"
  let ?data' = "?data\<lparr>mdpno := rbr\<rparr>"
  have data: "rbr_valid cat frm (now - frm) (mdpyes ?data)
      \<and> rbr_valid_unless_none cat frm (now - frm) (mdpno ?data)"
    using lookup_group_cases [of "pngroups rp" groupID]
  proof
    assume "?data = \<lparr>mdpyes = [], mdpno = []\<rparr>"
    then show ?thesis by simp
  next
    assume "(groupID, ?data) \<in> set (pngroups rp)"
    with inv show ?thesis by (auto simp: plan_valid_where_possible_def)
  qed
  with reduceResMulti_valid [OF red]
  have data': "rbr_valid cat frm (now - frm) (mdpyes ?data')
      \<and> rbr_valid_unless_none cat frm (now - frm) (mdpno ?data')"
    by simp
  have "rbr_valid cat frm (now - frm) (mdpyes gd)
      \<and> rbr_valid_unless_none cat frm (now - frm) (mdpno gd)"
    if "(g, gd) \<in> set (AList.update groupID ?data' (pngroups rp))" for g gd
    using set_AList_update [OF that]
  proof
    assume "(g, gd) = (groupID, ?data')"
    with data' show ?thesis by simp
  next
    assume "(g, gd) \<in> set (pngroups rp)"
    with inv show ?thesis by (auto simp: plan_valid_where_possible_def)
  qed
  with inv show ?thesis
    by (auto simp: plan_valid_where_possible_def)
qed

lemma planRequests_reduce_pngroups_valid:
  "planRequests_reduce_pngroups cat now frm to mpprSoft groupIDs (rp, progress)
     = Inr (honored, rp', progress') \<Longrightarrow>
   plan_valid_where_possible cat frm (now - frm) rp \<Longrightarrow>
   plan_valid_where_possible cat frm (now - frm) rp'"
proof (induction groupIDs arbitrary: rp progress)
  case Nil
  then show ?case by simp
next
  case (Cons groupID groupIDs)
  let ?data = "lookup_group (pngroups rp) groupID"
  show ?case
  proof (cases "0 < length (mdpno ?data)")
    case False
    with Cons.prems(1)
    have "planRequests_reduce_pngroups cat now frm to mpprSoft groupIDs (rp, progress)
            = Inr (honored, rp', progress')"
      by (simp add: Let_def)
    from Cons.IH [OF this Cons.prems(2)] show ?thesis .
  next
    case True
    with Cons.prems(1) obtain ok rbr where
      red: "reduceResMulti cat now frm to (mdpno ?data) = Inr (ok, rbr)"
      by (auto simp: Let_def split: sum.splits)
    let ?rp1 = "rp\<lparr>pngroups := AList.update groupID (?data\<lparr>mdpno := rbr\<rparr>) (pngroups rp)\<rparr>"
    note inv1 = reduce_group_valid [OF Cons.prems(2) red]
    from Cons.prems(1) True red
    have "rp' = ?rp1
        \<or> (\<exists>progress1. planRequests_reduce_pngroups cat now frm to mpprSoft groupIDs
              (?rp1, progress1) = Inr (honored, rp', progress'))"
      by (auto simp: Let_def split: if_splits)
    then show ?thesis
    proof
      assume "rp' = ?rp1"
      with inv1 show ?thesis by simp
    next
      assume "\<exists>progress1. planRequests_reduce_pngroups cat now frm to mpprSoft groupIDs
              (?rp1, progress1) = Inr (honored, rp', progress')"
      then obtain progress1 where
        "planRequests_reduce_pngroups cat now frm to mpprSoft groupIDs (?rp1, progress1)
           = Inr (honored, rp', progress')" ..
      from Cons.IH [OF this inv1] show ?thesis .
    qed
  qed
qed

lemma planRequests_reduce_singles_valid:
  "planRequests_reduce_singles cat now frm to mpprSoft ps (rp, progress)
     = Inr (honored, rp', progress') \<Longrightarrow>
   \<forall>p \<in> set ps. \<forall>req \<in> set (snd p). req_valid_unless_none cat frm (now - frm) (fst p) req \<Longrightarrow>
   plan_valid_where_possible cat frm (now - frm) rp \<Longrightarrow>
   plan_valid_where_possible cat frm (now - frm) rp'"
proof (induction ps arbitrary: rp progress)
  case Nil
  then show ?case by simp
next
  case (Cons p ps)
  obtain schemaID reqs where p: "p = (schemaID, reqs)" by (cases p)
  from Cons.prems(2)
  have rest: "\<forall>p \<in> set ps. \<forall>req \<in> set (snd p).
      req_valid_unless_none cat frm (now - frm) (fst p) req"
    by simp
  show ?case
  proof (cases "0 < length reqs")
    case False
    with Cons.prems(1) p
    have "planRequests_reduce_singles cat now frm to mpprSoft ps (rp, progress)
            = Inr (honored, rp', progress')"
      by simp
    from Cons.IH [OF this rest Cons.prems(3)] show ?thesis .
  next
    case True
    obtain ok reqs' where red: "reduceResSingles cat now frm to (u16 schemaID) reqs = (ok, reqs')"
      by (cases "reduceResSingles cat now frm to (u16 schemaID) reqs")
    let ?rp1 = "rp\<lparr>single := (single rp)\<lparr>mdpno := (mdpno (single rp))[schemaID := reqs']\<rparr>\<rparr>"
    from Cons.prems(2) p
    have "\<forall>req \<in> set reqs. req_valid_unless_none cat frm (now - frm) schemaID req" by simp
    from reduceResSingles_valid [OF red this] Cons.prems(3)
    have inv1: "plan_valid_where_possible cat frm (now - frm) ?rp1"
      by (simp add: plan_valid_where_possible_def rbr_valid_unless_none_update)
    from Cons.prems(1) True red p
    have "rp' = ?rp1
        \<or> (\<exists>progress1. planRequests_reduce_singles cat now frm to mpprSoft ps
              (?rp1, progress1) = Inr (honored, rp', progress'))"
      by (auto simp: Let_def split: if_splits)
    then show ?thesis
    proof
      assume "rp' = ?rp1"
      with inv1 show ?thesis by simp
    next
      assume "\<exists>progress1. planRequests_reduce_singles cat now frm to mpprSoft ps
              (?rp1, progress1) = Inr (honored, rp', progress')"
      then obtain progress1 where
        "planRequests_reduce_singles cat now frm to mpprSoft ps (?rp1, progress1)
           = Inr (honored, rp', progress')" ..
      from Cons.IH [OF this rest inv1] show ?thesis .
    qed
  qed
qed

lemma planRequests_pass_valid:
  assumes "planRequests_pass cat now frm to mpprSoft groupIDs rp = Inr (honored, rp', progress')"
    and "plan_valid_where_possible cat frm (now - frm) rp"
  shows "plan_valid_where_possible cat frm (now - frm) rp'"
proof -
  from assms(1) obtain h1 rp1 p1 where
    g: "planRequests_reduce_pngroups cat now frm to mpprSoft groupIDs (rp, False)
          = Inr (h1, rp1, p1)"
    by (auto simp: planRequests_pass_def split: sum.splits)
  note inv1 = planRequests_reduce_pngroups_valid [OF g assms(2)]
  show ?thesis
  proof (cases h1)
    case True
    with assms(1) g have "rp' = rp1" by (simp add: planRequests_pass_def)
    with inv1 show ?thesis by simp
  next
    case False
    with assms(1) g
    have s: "planRequests_reduce_singles cat now frm to mpprSoft
               (enumerate 0 (mdpno (single rp1))) (rp1, p1) = Inr (honored, rp', progress')"
      by (simp add: planRequests_pass_def)
    have "\<forall>p \<in> set (enumerate 0 (mdpno (single rp1))).
            \<forall>req \<in> set (snd p). req_valid_unless_none cat frm (now - frm) (fst p) req"
      using inv1
      by (auto simp: plan_valid_where_possible_def rbr_valid_unless_none_def in_set_enumerate_eq)
    from planRequests_reduce_singles_valid [OF s this inv1] show ?thesis .
  qed
qed

lemma planRequests_soft_valid:
  assumes "planRequests_soft cat now frm to mpprSoft groupIDs rp progress = Some (Inr rp')"
  shows "plan_valid_where_possible cat frm (now - frm) rp
           \<longrightarrow> plan_valid_where_possible cat frm (now - frm) rp'"
proof -
  have "\<forall>r'. (Inr rp' :: error + ReqsPlan) = Inr r' \<longrightarrow>
          plan_valid_where_possible cat frm (now - frm) rp
          \<longrightarrow> plan_valid_where_possible cat frm (now - frm) r'"
  proof (rule planRequests_soft.raw_induct
    [where P = "\<lambda>c n f (t :: u32) (s :: int) (g :: nat list) r (p :: bool) y.
        \<forall>r'. y = Inr r' \<longrightarrow> plan_valid_where_possible c f (n - f) r
          \<longrightarrow> plan_valid_where_possible c f (n - f) r'", OF _ assms])
    fix soft cat now frm to mpprSoft groupIDs rp progress y
    assume IH: "\<And>cat now frm to mpprSoft groupIDs rp progress y.
        soft cat now frm to mpprSoft groupIDs rp progress = Some y \<Longrightarrow>
        \<forall>r'. y = Inr r' \<longrightarrow> plan_valid_where_possible cat frm (now - frm) rp
          \<longrightarrow> plan_valid_where_possible cat frm (now - frm) r'"
      and step: "(if u32 mpprSoft < rp_PointsFetch rp \<and> progress
        then case planRequests_pass cat now frm to mpprSoft groupIDs rp of
             Inl e \<Rightarrow> Some (Inl e)
             | Inr (honored, rp', progress') \<Rightarrow>
                 if honored then Some (Inr rp')
                 else soft cat now frm to mpprSoft groupIDs rp' progress'
        else Some (Inr rp)) = Some y"
    show "\<forall>r'. y = Inr r' \<longrightarrow> plan_valid_where_possible cat frm (now - frm) rp
          \<longrightarrow> plan_valid_where_possible cat frm (now - frm) r'"
    proof (intro allI impI)
      fix r' assume y: "y = Inr r'" and inv: "plan_valid_where_possible cat frm (now - frm) rp"
      show "plan_valid_where_possible cat frm (now - frm) r'"
      proof (cases "u32 mpprSoft < rp_PointsFetch rp \<and> progress")
        case False
        with step y have "r' = rp" by simp
        with inv show ?thesis by simp
      next
        case True
        with step y obtain honored rp1 p1 where
          pass: "planRequests_pass cat now frm to mpprSoft groupIDs rp = Inr (honored, rp1, p1)"
          by (auto split: sum.splits)
        note inv1 = planRequests_pass_valid [OF pass inv]
        show ?thesis
        proof (cases honored)
          case h: True
          with step y True pass have "r' = rp1" by simp
          with inv1 show ?thesis by simp
        next
          case h: False
          with step y True pass
          have "soft cat now frm to mpprSoft groupIDs rp1 p1 = Some (Inr r')" by simp
          from IH [OF this] inv1 show ?thesis by simp
        qed
      qed
    qed
  qed
  then show ?thesis by simp
qed

lemma planRequests_valid:
  assumes "planRequests cat now frm to reqs planMDP mpprSoft mpprHard = Some (Inr rp')"
  shows "plan_valid_where_possible cat frm (now - frm) rp'"
proof -
  from assms have s12: "planRequests_steps12 cat now frm to reqs planMDP mpprSoft = Some (Inr rp')"
    by (auto simp: planRequests_def split: option.splits sum.splits if_splits)
  then obtain rp1 where
    init: "planRequests_initial cat now frm to reqs planMDP = Inr rp1"
    and soft: "(if 0 < mpprSoft
          then planRequests_soft cat now frm to mpprSoft (pngroupsByLen rp1) rp1 True
          else Some (Inr rp1)) = Some (Inr rp')"
    by (auto simp: planRequests_steps12_def split: sum.splits)
  note inv1 = planRequests_initial_valid [OF init]
  show ?thesis
  proof (cases "0 < mpprSoft")
    case True
    with soft have "planRequests_soft cat now frm to mpprSoft (pngroupsByLen rp1) rp1 True
        = Some (Inr rp')" by simp
    from planRequests_soft_valid [OF this] inv1 show ?thesis by simp
  next
    case False
    with soft inv1 show ?thesis by simp
  qed
qed

subsection \<open>Points fetched under the cap\<close>





subsection \<open>When the selection under a cap returns\<close>

lemma getLowestResFromSetMatching_returned:
  assumes res: "getLowestResFromSetMatching cat rbr frm ttl minI maxI intervalsSet = Inr r"
    and pos: "\<forall>schemaID < length rbr. \<forall>ret \<in> set (cat (u16 schemaID)). 0 < SecondsPerPoint ret"
    and data: "HasData rbr"
  shows "(filter (in_range minI maxI) (lcm_candidates intervalsSet) \<noteq> [] \<longrightarrow>
            (\<exists>k < length (filter (in_range minI maxI) (lcm_candidates intervalsSet)).
               r = filter (in_range minI maxI) (lcm_candidates intervalsSet) ! k
               \<and> (\<forall>j < length (filter (in_range minI maxI) (lcm_candidates intervalsSet)).
                     score_spec cat rbr frm ttl
                       (filter (in_range minI maxI) (lcm_candidates intervalsSet) ! j)
                     \<le> score_spec cat rbr frm ttl r)
               \<and> (\<forall>j < k.
                     score_spec cat rbr frm ttl
                       (filter (in_range minI maxI) (lcm_candidates intervalsSet) ! j)
                     < score_spec cat rbr frm ttl r)))
       \<and> (filter (in_range minI maxI) (lcm_candidates intervalsSet) = [] \<longrightarrow>
            (\<forall>c \<in> set (lcm_candidates intervalsSet). r \<le> c)
            \<and> (r \<in> set (lcm_candidates intervalsSet)
                 \<or> (lcm_candidates intervalsSet = [] \<and> r = - 1)))"
proof -
  let ?cs = "lcm_candidates intervalsSet"
  let ?inr = "filter (in_range minI maxI) ?cs"
  let ?sc = "score_spec cat rbr frm ttl"
  let ?ps = "map (\<lambda>c. (c, ?sc c)) ?inr"
  from res obtain ms' lo' ri' where
    loop: "getLowestRes_loop cat rbr frm ttl minI maxI (AllCombinationsUint32 intervalsSet)
             (0, - 1, 0) = Inr (ms', lo', ri')"
    and r: "r = (if ri' = 0 then lo' else ri')"
    by (auto simp: getLowestResFromSetMatching_def split: sum.splits)
  from getLowestRes_loop_spec [OF loop]
  have lo: "lo' = fold min ?cs (- 1)"
    and best: "best_first ?ps (0, 0) = (ms', ri')"
    and scores: "\<forall>c \<in> set ?inr. score_loop cat (enumerate 0 rbr) frm ttl c 0 = Inr (?sc c)"
    by (simp_all add: lcm_candidates_def)
  from fold_min_le [of ?cs "- 1"] lo
  have lo_le: "\<forall>c \<in> set ?cs. lo' \<le> c" and lo_in: "lo' = - 1 \<or> lo' \<in> set ?cs"
    by simp_all
  have pos': "\<forall>(schemaID, reqs) \<in> set (enumerate 0 rbr).
      \<forall>ret \<in> set (cat (u16 schemaID)). 0 < SecondsPerPoint ret"
    using pos by (auto simp: in_set_enumerate_eq)
  from data obtain i where "i < length rbr" "rbr ! i \<noteq> []"
    by (auto simp: HasData_def in_set_conv_nth)
  then have "(i, rbr ! i) \<in> set (enumerate 0 rbr)" by (simp add: in_set_enumerate_eq)
  with \<open>rbr ! i \<noteq> []\<close> have data': "\<exists>(schemaID, reqs) \<in> set (enumerate 0 rbr). reqs \<noteq> []"
    by fastforce
  have positive: "0 < ?sc c" if "c \<in> set ?inr" for c
    using score_loop_positive [OF _ pos', of frm ttl c 0 "?sc c"] scores that data' by blast
  show ?thesis
  proof (intro conjI impI)
    assume ne: "?inr \<noteq> []"
    from best_first_result [OF best]
    have all: "\<forall>j < length ?ps. snd (?ps ! j) \<le> ms'"
      and alt: "(ms' = 0 \<and> ri' = 0)
        \<or> (0 < ms' \<and> (\<exists>k < length ?ps. ?ps ! k = (ri', ms') \<and> (\<forall>j < k. snd (?ps ! j) < ms')))"
      by simp_all
    from ne have len: "0 < length ?inr" by simp
    then have "?inr ! 0 \<in> set ?inr" by (rule nth_mem)
    from positive [OF this] all len have "0 < ms'" by fastforce
    with alt obtain k where k: "k < length ?inr" "?ps ! k = (ri', ms')"
      "\<forall>j < k. snd (?ps ! j) < ms'" by auto
    from k(1,2) have ri: "ri' = ?inr ! k" and ms: "ms' = ?sc ri'" by auto
    have "r = ri'"
    proof (cases "ri' = 0")
      case True
      from k(1) ri have "ri' \<in> set ?cs" by (metis filter_is_subset nth_mem subsetD)
      with lo_le True have "lo' \<le> 0" by auto
      with r True show ?thesis by simp
    next
      case False
      with r show ?thesis by simp
    qed
    with ri ms have rk: "r = ?inr ! k" and msr: "ms' = ?sc r" by simp_all
    have "\<forall>j < length ?inr. ?sc (?inr ! j) \<le> ?sc r"
      using all msr by simp
    moreover have "\<forall>j < k. ?sc (?inr ! j) < ?sc r"
      using k(1,3) msr by simp
    ultimately show "\<exists>k < length ?inr. r = ?inr ! k
        \<and> (\<forall>j < length ?inr. ?sc (?inr ! j) \<le> ?sc r) \<and> (\<forall>j < k. ?sc (?inr ! j) < ?sc r)"
      using k(1) rk by (intro exI [of _ k]) simp
  next
    assume e: "?inr = []"
    with best have "ri' = 0" by simp
    with r have rl: "r = lo'" by simp
    with lo_le show "\<forall>c \<in> set ?cs. r \<le> c" by simp
  next
    assume e: "?inr = []"
    with best have "ri' = 0" by simp
    with r have rl: "r = lo'" by simp
    show "r \<in> set ?cs \<or> (?cs = [] \<and> r = - 1)"
    proof (cases "?cs = []")
      case True
      with lo rl show ?thesis by simp
    next
      case False
      then have "hd ?cs \<in> set ?cs" by (rule hd_in_set)
      then obtain c where c: "c \<in> set ?cs" ..
      from lo_in show ?thesis
      proof
        assume m: "lo' = - 1"
        with lo_le c have "c = - 1" by (auto intro: word_minus1_le)
        with c m rl show ?thesis by simp
      next
        assume "lo' \<in> set ?cs"
        with rl show ?thesis by simp
      qed
    qed
  qed
qed

lemma findLowestValidResForInterval_Inl:
  "findLowestValidResForInterval rets frm ttl interval = Inl e \<Longrightarrow> e = Panic"
  by (induction rets rule: rev_induct)
     (auto simp: findLowestValidResForInterval_snoc split: if_splits)

lemma findLowestValidResForInterval_total:
  assumes "\<exists>ret \<in> set rets. divides_valid frm ttl interval ret"
    and "\<forall>ret \<in> set rets. Valid ret frm ttl \<longrightarrow> u32 (SecondsPerPoint ret) \<noteq> 0"
  shows "\<exists>i ret. findLowestValidResForInterval rets frm ttl interval = Inr (Some (i, ret))"
proof (cases "findLowestValidResForInterval rets frm ttl interval")
  case (Inl e)
  with findLowestValidResForInterval_no_Panic [OF assms(2), of interval e] show ?thesis by simp
next
  case (Inr found)
  show ?thesis
  proof (cases found)
    case None
    with Inr findLowestValidResForInterval_None [of rets frm ttl interval] assms(1)
    show ?thesis by auto
  next
    case (Some p)
    with Inr show ?thesis by (cases p) auto
  qed
qed

lemma score_loop_Inl:
  "score_loop cat ps frm ttl c s = Inl e \<Longrightarrow> e = Panic"
proof (induction ps arbitrary: s)
  case Nil
  then show ?case by simp
next
  case (Cons p ps)
  obtain schemaID reqs where p: "p = (schemaID, reqs)" by (cases p)
  show ?case
  proof (cases "reqs = []")
    case True
    with Cons.prems p have "score_loop cat ps frm ttl c s = Inl e" by simp
    then show ?thesis by (rule Cons.IH)
  next
    case False
    show ?thesis
    proof (cases "findLowestValidResForInterval (cat (u16 schemaID)) frm ttl c")
      case (Inl e')
      with Cons.prems p False have "e = e'" by simp
      with findLowestValidResForInterval_Inl [OF Inl] show ?thesis by simp
    next
      case (Inr found)
      show ?thesis
      proof (cases found)
        case None
        with Inr Cons.prems p False show ?thesis by simp
      next
        case (Some q)
        obtain i ret where "q = (i, ret)" by (cases q)
        with Some Inr Cons.prems p False
        have "score_loop cat ps frm ttl c (s + int (length reqs) * SecondsPerPoint ret) = Inl e"
          by simp
        then show ?thesis by (rule Cons.IH)
      qed
    qed
  qed
qed

lemma score_loop_total:
  assumes "\<forall>(schemaID, reqs) \<in> set ps. reqs \<noteq> []
      \<longrightarrow> (\<exists>i ret. findLowestValidResForInterval (cat (u16 schemaID)) frm ttl c = Inr (Some (i, ret)))"
  shows "\<exists>s'. score_loop cat ps frm ttl c s = Inr s'"
  using assms
proof (induction ps arbitrary: s)
  case Nil
  then show ?case by simp
next
  case (Cons p ps)
  obtain schemaID reqs where p: "p = (schemaID, reqs)" by (cases p)
  from Cons.prems have tl: "\<forall>(schemaID, reqs) \<in> set ps. reqs \<noteq> []
      \<longrightarrow> (\<exists>i ret. findLowestValidResForInterval (cat (u16 schemaID)) frm ttl c = Inr (Some (i, ret)))"
    by simp
  show ?case
  proof (cases "reqs = []")
    case True
    with Cons.IH [OF tl, of s] p show ?thesis by simp
  next
    case False
    with Cons.prems p obtain i ret where
      "findLowestValidResForInterval (cat (u16 schemaID)) frm ttl c = Inr (Some (i, ret))"
      by auto
    with Cons.IH [OF tl, of "s + int (length reqs) * SecondsPerPoint ret"] p False
    show ?thesis by simp
  qed
qed

lemma score_loop_fails:
  assumes "(schemaID, reqs) \<in> set ps" and "reqs \<noteq> []"
    and "\<forall>i ret. findLowestValidResForInterval (cat (u16 schemaID)) frm ttl c \<noteq> Inr (Some (i, ret))"
  shows "\<exists>e. score_loop cat ps frm ttl c s = Inl e"
  using assms(1)
proof (induction ps arbitrary: s)
  case Nil
  then show ?case by simp
next
  case (Cons p ps)
  obtain schemaID' reqs' where p: "p = (schemaID', reqs')" by (cases p)
  show ?case
  proof (cases "reqs' = []")
    case True
    with Cons.prems p assms(2) have "(schemaID, reqs) \<in> set ps" by auto
    from Cons.IH [OF this, of s] True p show ?thesis by simp
  next
    case False
    show ?thesis
    proof (cases "findLowestValidResForInterval (cat (u16 schemaID')) frm ttl c")
      case (Inl e')
      with p False show ?thesis by simp
    next
      case (Inr found)
      show ?thesis
      proof (cases found)
        case None
        with Inr p False show ?thesis by simp
      next
        case (Some q)
        obtain i ret where q: "q = (i, ret)" by (cases q)
        with Some Inr assms(3) have "schemaID' \<noteq> schemaID" by auto
        with Cons.prems p have "(schemaID, reqs) \<in> set ps" by auto
        from Cons.IH [OF this, of "s + int (length reqs') * SecondsPerPoint ret"]
          Some Inr q p False
        show ?thesis by simp
      qed
    qed
  qed
qed

lemma getLowestRes_loop_Inl:
  "getLowestRes_loop cat rbr frm ttl minI maxI combos acc = Inl e \<Longrightarrow> e = Panic"
proof (induction combos arbitrary: acc)
  case Nil
  then show ?case by simp
next
  case (Cons combo combos)
  obtain ms lo ri where acc: "acc = (ms, lo, ri)" by (cases acc) auto
  show ?case
  proof (cases "combo = []")
    case True
    with Cons.prems acc show ?thesis by (simp add: Lcm_u32_eq)
  next
    case False
    then have lcm: "Lcm_u32 combo = Inr (lcm_val combo)" by (simp add: Lcm_u32_eq)
    let ?c = "lcm_val combo"
    show ?thesis
    proof (cases "?c < minI \<or> maxI < ?c")
      case True
      with Cons.prems acc lcm obtain acc' where
        "getLowestRes_loop cat rbr frm ttl minI maxI combos acc' = Inl e"
        by (auto simp: Let_def)
      then show ?thesis by (rule Cons.IH)
    next
      case inr: False
      show ?thesis
      proof (cases "score_loop cat (enumerate 0 rbr) frm ttl ?c 0")
        case (Inl e')
        with Cons.prems acc lcm inr have "e = e'" by (simp add: Let_def)
        with score_loop_Inl [OF Inl] show ?thesis by simp
      next
        case (Inr score)
        with Cons.prems acc lcm inr obtain acc' where
          "getLowestRes_loop cat rbr frm ttl minI maxI combos acc' = Inl e"
          by (auto simp: Let_def split: if_splits)
        then show ?thesis by (rule Cons.IH)
      qed
    qed
  qed
qed

lemma getLowestRes_loop_total:
  assumes "\<forall>combo \<in> set combos. combo \<noteq> []"
    and "\<forall>c \<in> set (filter (in_range minI maxI) (map lcm_val combos)).
           \<exists>s. score_loop cat (enumerate 0 rbr) frm ttl c 0 = Inr s"
  shows "\<exists>res. getLowestRes_loop cat rbr frm ttl minI maxI combos acc = Inr res"
  using assms
proof (induction combos arbitrary: acc)
  case Nil
  then show ?case by (cases acc) auto
next
  case (Cons combo combos)
  obtain ms lo ri where acc: "acc = (ms, lo, ri)" by (cases acc) auto
  from Cons.prems(1) have ne: "combo \<noteq> []" and ne': "\<forall>combo \<in> set combos. combo \<noteq> []"
    by simp_all
  from ne have lcm: "Lcm_u32 combo = Inr (lcm_val combo)" by (simp add: Lcm_u32_eq)
  from Cons.prems(2)
  have sc': "\<forall>c \<in> set (filter (in_range minI maxI) (map lcm_val combos)).
           \<exists>s. score_loop cat (enumerate 0 rbr) frm ttl c 0 = Inr s"
    by simp
  note IH = Cons.IH [OF ne' sc']
  let ?c = "lcm_val combo"
  show ?case
  proof (cases "?c < minI \<or> maxI < ?c")
    case True
    with IH [of "(ms, if ?c < lo then ?c else lo, ri)"] acc lcm show ?thesis
      by (simp add: Let_def)
  next
    case False
    then have "in_range minI maxI ?c" by (auto simp: in_range_def)
    with Cons.prems(2) obtain s where
      s: "score_loop cat (enumerate 0 rbr) frm ttl ?c 0 = Inr s" by auto
    show ?thesis
    proof (cases "ms < s")
      case better: True
      with IH [of "(s, if ?c < lo then ?c else lo, ?c)"] acc lcm False s show ?thesis
        by (simp add: Let_def)
    next
      case worse: False
      with IH [of "(ms, if ?c < lo then ?c else lo, ri)"] acc lcm False s show ?thesis
        by (simp add: Let_def)
    qed
  qed
qed

lemma getLowestRes_loop_fails:
  assumes "c \<in> set (filter (in_range minI maxI) (map lcm_val combos))"
    and "score_loop cat (enumerate 0 rbr) frm ttl c 0 = Inl e"
  shows "\<exists>e'. getLowestRes_loop cat rbr frm ttl minI maxI combos acc = Inl e'"
  using assms(1)
proof (induction combos arbitrary: acc)
  case Nil
  then show ?case by simp
next
  case (Cons combo combos)
  obtain ms lo ri where acc: "acc = (ms, lo, ri)" by (cases acc) auto
  show ?case
  proof (cases "combo = []")
    case True
    with acc show ?thesis by (simp add: Lcm_u32_eq)
  next
    case False
    then have lcm: "Lcm_u32 combo = Inr (lcm_val combo)" by (simp add: Lcm_u32_eq)
    let ?c = "lcm_val combo"
    show ?thesis
    proof (cases "?c < minI \<or> maxI < ?c")
      case True
      then have "\<not> in_range minI maxI ?c" by (auto simp: in_range_def)
      with Cons.prems have "c \<in> set (filter (in_range minI maxI) (map lcm_val combos))"
        by simp
      from Cons.IH [OF this, of "(ms, if ?c < lo then ?c else lo, ri)"] acc lcm True
      show ?thesis by (simp add: Let_def)
    next
      case inr: False
      show ?thesis
      proof (cases "score_loop cat (enumerate 0 rbr) frm ttl ?c 0")
        case (Inl e')
        with acc lcm inr show ?thesis by (simp add: Let_def)
      next
        case (Inr s)
        with assms(2) have "c \<noteq> ?c" by auto
        with Cons.prems have mem: "c \<in> set (filter (in_range minI maxI) (map lcm_val combos))"
          by (auto split: if_splits)
        show ?thesis
        proof (cases "ms < s")
          case better: True
          with Cons.IH [OF mem, of "(s, if ?c < lo then ?c else lo, ?c)"] acc lcm inr Inr
          show ?thesis by (simp add: Let_def)
        next
          case worse: False
          with Cons.IH [OF mem, of "(ms, if ?c < lo then ?c else lo, ri)"] acc lcm inr Inr
          show ?thesis by (simp add: Let_def)
        qed
      qed
    qed
  qed
qed


lemma getLowestResFromSetMatching_Inl:
  "getLowestResFromSetMatching cat rbr frm ttl minI maxI intervalsSet = Inl e \<Longrightarrow> e = Panic"
proof -
  assume a: "getLowestResFromSetMatching cat rbr frm ttl minI maxI intervalsSet = Inl e"
  then have "getLowestRes_loop cat rbr frm ttl minI maxI (AllCombinationsUint32 intervalsSet)
      (0, - 1, 0) = Inl e"
    by (auto simp: getLowestResFromSetMatching_def split: sum.splits)
  then show ?thesis by (rule getLowestRes_loop_Inl)
qed

lemma AllCombinationsUint32_nonempty:
  "intervalsSet \<noteq> [] \<Longrightarrow> \<forall>combo \<in> set (AllCombinationsUint32 intervalsSet). combo \<noteq> []"
  by (auto simp: AllCombinationsUint32_def dest: in_set_product_lists_length)

subsection \<open>The shape of a half planned to a common interval\<close>



lemma planToMulti_req_more [simp]:
  "From (planToMulti_req a ret interval req) = From req"
  "To (planToMulti_req a ret interval req) = To req"
  "RawInterval (planToMulti_req a ret interval req) = RawInterval req"
  "ArchInterval (planToMulti_req a ret interval req)
     = (if a = 0 then RawInterval req else u32 (SecondsPerPoint ret))"
  by (auto simp: planToMulti_req_def PlanNormalization_def Plan_def Let_def)







subsection \<open>The errors of the initial plan\<close>

lemma planToMulti_loop_Inl:
  "planToMulti_loop cat frm ttl interval ps = Inl e \<Longrightarrow> e = Panic"
proof (induction ps arbitrary: e)
  case Nil
  then show ?case by simp
next
  case (Cons p ps)
  obtain schemaID reqs where p: "p = (schemaID, reqs)" by (cases p)
  show ?case
  proof (cases "planToMulti_loop cat frm ttl interval ps")
    case (Inl e')
    with Cons.IH have e': "e' = Panic" by simp
    show ?thesis
    proof (cases "reqs = []")
      case True
      with Cons.prems p Inl e' show ?thesis by simp
    next
      case False
      show ?thesis
      proof (cases "findLowestValidResForInterval (cat (u16 schemaID)) frm ttl interval")
        case fl: (Inl e2)
        with Cons.prems p False have "e = e2" by simp
        with findLowestValidResForInterval_Inl [OF fl] show ?thesis by simp
      next
        case (Inr found)
        with Cons.prems p False Inl e' show ?thesis by (cases found) auto
      qed
    qed
  next
    case (Inr rest')
    show ?thesis
    proof (cases "reqs = []")
      case True
      with Cons.prems p Inr show ?thesis by simp
    next
      case False
      show ?thesis
      proof (cases "findLowestValidResForInterval (cat (u16 schemaID)) frm ttl interval")
        case fl: (Inl e2)
        with Cons.prems p False have "e = e2" by simp
        with findLowestValidResForInterval_Inl [OF fl] show ?thesis by simp
      next
        case fr: (Inr found)
        with Cons.prems p False Inr show ?thesis by (cases found) auto
      qed
    qed
  qed
qed

lemma planToMulti_Inl:
  "planToMulti cat now frm to interval rbr = Inl e \<Longrightarrow> e = Panic"
  unfolding planToMulti_def by (rule planToMulti_loop_Inl)

lemma planHighestResMulti_Inl:
  "planHighestResMulti cat now frm to rbr = Inl e \<Longrightarrow> e = Panic"
  by (auto simp: planHighestResMulti_def Lcm_u32_eq split: prod.splits if_splits)

lemma planLowestResForMDPMulti_Inl:
  assumes "planLowestResForMDPMulti cat now frm to mdp rbr = Inl e"
  shows "e = Panic"
proof (cases "mdp = 0")
  case True
  with assms show ?thesis by (simp add: planLowestResForMDPMulti_def)
next
  case False
  obtain vs ok where g: "getValidIntervalsSet cat rbr frm (now - frm) = (vs, ok)"
    by (cases "getValidIntervalsSet cat rbr frm (now - frm)")
  show ?thesis
  proof (cases ok)
    case no: False
    with assms False g show ?thesis by (simp add: planLowestResForMDPMulti_def Let_def)
  next
    case yes: True
    show ?thesis
    proof (cases "getLowestResFromSetMatching cat rbr frm (now - frm) 0
                    ((2 * (to - frm)) div mdp) vs")
      case (Inl e')
      with assms False g yes have "e = e'" by (simp add: planLowestResForMDPMulti_def Let_def)
      with getLowestResFromSetMatching_Inl [OF Inl] show ?thesis by simp
    next
      case (Inr interval)
      with assms False g yes
      have "planToMulti cat now frm to interval rbr = Inl e"
        by (auto simp: planLowestResForMDPMulti_def Let_def split: sum.splits)
      then show ?thesis by (rule planToMulti_Inl)
    qed
  qed
qed

lemma planRequests_pngroup_Inl:
  assumes "planRequests_pngroup cat now frm to planMDP gd = Inl e"
  shows "e = errUnSatisfiable \<or> (e = Panic \<and> HasData (mdpyes gd))"
proof (cases "HasData (mdpyes gd)")
  case True
  show ?thesis
  proof (cases "planLowestResForMDPMulti cat now frm to planMDP (mdpyes gd)")
    case (Inl e')
    with assms True have "e = e'" by (simp add: planRequests_pngroup_def)
    with planLowestResForMDPMulti_Inl [OF Inl] True show ?thesis by simp
  next
    case (Inr res)
    obtain ok y where res: "res = (ok, y)" by (cases res)
    show ?thesis
    proof (cases ok)
      case False
      with assms True Inr res show ?thesis by (simp add: planRequests_pngroup_def)
    next
      case ok: True
      show ?thesis
      proof (cases "HasData (mdpno gd)")
        case no: False
        with assms True Inr res ok show ?thesis by (simp add: planRequests_pngroup_def)
      next
        case yes: True
        show ?thesis
        proof (cases "planHighestResMulti cat now frm to (mdpno gd)")
          case hl: (Inl e')
          with planHighestResMulti_no_Panic [OF yes, of cat now frm to e'] show ?thesis by simp
        next
          case hr: (Inr res')
          obtain ok' n where "res' = (ok', n)" by (cases res')
          with assms True Inr res ok yes hr show ?thesis
            by (auto simp: planRequests_pngroup_def split: if_splits)
        qed
      qed
    qed
  qed
next
  case False
  show ?thesis
  proof (cases "HasData (mdpno gd)")
    case no: False
    with assms False show ?thesis by (simp add: planRequests_pngroup_def)
  next
    case yes: True
    show ?thesis
    proof (cases "planHighestResMulti cat now frm to (mdpno gd)")
      case hl: (Inl e')
      with planHighestResMulti_no_Panic [OF yes, of cat now frm to e'] show ?thesis by simp
    next
      case hr: (Inr res')
      obtain ok' n where "res' = (ok', n)" by (cases res')
      with assms False yes hr show ?thesis
        by (auto simp: planRequests_pngroup_def split: if_splits)
    qed
  qed
qed

lemma planRequests_pngroups_Inl:
  "planRequests_pngroups cat now frm to planMDP groups = Inl e \<Longrightarrow>
     e = errUnSatisfiable \<or> (e = Panic \<and> (\<exists>(groupID, gd) \<in> set groups. HasData (mdpyes gd)))"
proof (induction groups)
  case Nil
  then show ?case by simp
next
  case (Cons p groups)
  obtain g d where p: "p = (g, d)" by (cases p)
  show ?case
  proof (cases "planRequests_pngroup cat now frm to planMDP d")
    case (Inl e')
    with Cons.prems p have "e = e'" by simp
    with planRequests_pngroup_Inl [OF Inl] p show ?thesis by auto
  next
    case (Inr d')
    with Cons.prems p have "planRequests_pngroups cat now frm to planMDP groups = Inl e"
      by (auto split: sum.splits)
    from Cons.IH [OF this] show ?thesis by auto
  qed
qed

lemma planRequests_single_mdpyes_Inl:
  "planRequests_single_mdpyes cat now frm to planMDP ps = Inl e \<Longrightarrow> e = errUnSatisfiable"
proof (induction ps arbitrary: e)
  case Nil
  then show ?case by simp
next
  case (Cons p ps)
  obtain schemaID reqs where p: "p = (schemaID, reqs)" by (cases p)
  show ?case
  proof (cases "planRequests_single_mdpyes cat now frm to planMDP ps")
    case (Inl e')
    with Cons.IH have "e' = errUnSatisfiable" by simp
    with Cons.prems p Inl show ?thesis by (auto split: if_splits prod.splits)
  next
    case (Inr rest')
    with Cons.prems p show ?thesis by (auto split: if_splits prod.splits)
  qed
qed

lemma planRequests_single_mdpno_Inl:
  "planRequests_single_mdpno cat now frm to ps = Inl e \<Longrightarrow> e = errUnSatisfiable"
proof (induction ps arbitrary: e)
  case Nil
  then show ?case by simp
next
  case (Cons p ps)
  obtain schemaID reqs where p: "p = (schemaID, reqs)" by (cases p)
  show ?case
  proof (cases "planRequests_single_mdpno cat now frm to ps")
    case (Inl e')
    with Cons.IH have "e' = errUnSatisfiable" by simp
    with Cons.prems p Inl show ?thesis by (auto split: if_splits prod.splits)
  next
    case (Inr rest')
    with Cons.prems p show ?thesis by (auto split: if_splits prod.splits)
  qed
qed

lemma planRequests_initial_Inl:
  assumes "planRequests_initial cat now frm to rp planMDP = Inl e"
  shows "e = errUnSatisfiable
       \<or> (e = Panic \<and> (\<exists>(groupID, gd) \<in> set (pngroups rp). HasData (mdpyes gd)))"
proof (cases "planRequests_pngroups cat now frm to planMDP (pngroups rp)")
  case (Inl e')
  with assms have "e = e'" by (simp add: planRequests_initial_def)
  with planRequests_pngroups_Inl [OF Inl] show ?thesis by simp
next
  case (Inr groups')
  show ?thesis
  proof (cases "planRequests_single_mdpyes cat now frm to planMDP
                  (enumerate 0 (mdpyes (single rp)))")
    case yl: (Inl e')
    with assms Inr have "e = e'" by (simp add: planRequests_initial_def)
    with planRequests_single_mdpyes_Inl [OF yl] show ?thesis by simp
  next
    case yr: (Inr yes')
    with assms Inr
    have "planRequests_single_mdpno cat now frm to (enumerate 0 (mdpno (single rp))) = Inl e"
      by (auto simp: planRequests_initial_def split: sum.splits)
    from planRequests_single_mdpno_Inl [OF this] show ?thesis by simp
  qed
qed

lemma no_data_has_valid: "\<not> HasData rbr \<Longrightarrow> has_valid cat frm ttl rbr"
  by (simp add: has_valid_def no_data_buckets)

lemma planRequests_pngroup_has_valid:
  assumes "planRequests_pngroup cat now frm to planMDP gd = Inr gd'"
  shows "has_valid cat frm (now - frm) (mdpyes gd)"
proof (cases "HasData (mdpyes gd)")
  case False
  then show ?thesis by (rule no_data_has_valid)
next
  case True
  with assms obtain y where
    p: "planLowestResForMDPMulti cat now frm to planMDP (mdpyes gd) = Inr (True, y)"
    by (auto simp: planRequests_pngroup_def split: sum.splits if_splits)
  from planLowestResForMDPMulti_result [OF p] show ?thesis
    by (auto simp: has_valid_def)
qed

lemma planRequests_pngroups_has_valid:
  "planRequests_pngroups cat now frm to planMDP groups = Inr groups' \<Longrightarrow>
     \<forall>(groupID, gd) \<in> set groups. has_valid cat frm (now - frm) (mdpyes gd)"
proof (induction groups arbitrary: groups')
  case Nil
  then show ?case by simp
next
  case (Cons p groups)
  obtain groupID gd where p: "p = (groupID, gd)" by (cases p)
  with Cons.prems obtain gd' rest' where
    g: "planRequests_pngroup cat now frm to planMDP gd = Inr gd'"
    and rest: "planRequests_pngroups cat now frm to planMDP groups = Inr rest'"
    by (auto split: sum.splits)
  from planRequests_pngroup_has_valid [OF g] Cons.IH [OF rest] p show ?case by simp
qed

lemma planRequests_initial_satisfiable:
  assumes "planRequests_initial cat now frm to rp planMDP = Inr rp1"
  shows "plan_satisfiable cat frm (now - frm) rp"
proof -
  from assms obtain groups' where
    g: "planRequests_pngroups cat now frm to planMDP (pngroups rp) = Inr groups'"
    by (auto simp: planRequests_initial_def split: sum.splits)
  from planRequests_pngroups_has_valid [OF g] planRequests_initial_result [OF assms]
  show ?thesis by (simp add: plan_satisfiable_def)
qed

lemma planRequests_unsatisfiable:
  assumes "\<not> plan_satisfiable cat frm (now - frm) reqs"
  shows "planRequests cat now frm to reqs planMDP mpprSoft mpprHard = Some (Inl errUnSatisfiable)
       \<or> (planRequests cat now frm to reqs planMDP mpprSoft mpprHard = Some (Inl Panic)
            \<and> (\<exists>(groupID, gd) \<in> set (pngroups reqs). HasData (mdpyes gd)))"
proof (cases "planRequests_initial cat now frm to reqs planMDP")
  case (Inr rp1)
  from planRequests_initial_satisfiable [OF this] assms show ?thesis by simp
next
  case (Inl e)
  then have "planRequests cat now frm to reqs planMDP mpprSoft mpprHard = Some (Inl e)"
    by (simp add: planRequests_def planRequests_steps12_def)
  with planRequests_initial_Inl [OF Inl] show ?thesis by auto
qed

lemma planRequests_satisfiable:
  assumes "planRequests cat now frm to reqs planMDP mpprSoft mpprHard = Some (Inr rp')"
  shows "plan_satisfiable cat frm (now - frm) reqs"
proof -
  from assms obtain rp1 where "planRequests_initial cat now frm to reqs planMDP = Inr rp1"
    by (auto simp: planRequests_def planRequests_steps12_def split: option.splits sum.splits if_splits)
  then show ?thesis by (rule planRequests_initial_satisfiable)
qed

subsection \<open>The exact count of the points of a plan\<close>













section \<open>The claims\<close>

subsection \<open>C5: the hard limit\<close>




subsection \<open>C7: the coarsest valid retention that divides the interval\<close>

text \<open>
  Claim C7. On a retention list ordered by ascending seconds per point, each of them positive
  and within 32 bits as the data model has them, \<^verbatim>\<open>findLowestValidResForInterval\<close>
  returns the coarsest retention that is valid for the window and whose seconds per point
  divide the interval: the one of highest index, which no other such retention exceeds in
  seconds per point; it reports that there is none exactly when there is none. Whenever a
  valid retention whose seconds per point equal the interval exists, the retention returned
  has exactly the interval as its seconds per point, so that a finer divisor is returned only
  when there is no exact match.
\<close>

theorem findLowestValidResForInterval_coarsest:
  assumes sorted: "sorted (map SecondsPerPoint rets)"
    and range: "\<forall>ret \<in> set rets. 0 < SecondsPerPoint ret \<and> SecondsPerPoint ret < 2 ^ 32"
  shows "(findLowestValidResForInterval rets frm ttl interval = Inr None
          \<and> (\<forall>ret \<in> set rets.
                \<not> (Valid ret frm ttl \<and> interval mod u32 (SecondsPerPoint ret) = 0)))
       \<or> (\<exists>i ret. findLowestValidResForInterval rets frm ttl interval = Inr (Some (i, ret))
            \<and> i < length rets \<and> ret = rets ! i
            \<and> Valid ret frm ttl \<and> interval mod u32 (SecondsPerPoint ret) = 0
            \<and> (\<forall>j < length rets.
                  Valid (rets ! j) frm ttl \<and> interval mod u32 (SecondsPerPoint (rets ! j)) = 0
                  \<longrightarrow> j \<le> i \<and> SecondsPerPoint (rets ! j) \<le> SecondsPerPoint ret)
            \<and> ((\<exists>exact \<in> set rets.
                   Valid exact frm ttl \<and> u32 (SecondsPerPoint exact) = interval)
                 \<longrightarrow> u32 (SecondsPerPoint ret) = interval))"
proof -
  let ?res = "findLowestValidResForInterval rets frm ttl interval"
  have nz: "\<forall>ret \<in> set rets. Valid ret frm ttl \<longrightarrow> u32 (SecondsPerPoint ret) \<noteq> 0"
  proof (intro ballI impI)
    fix ret assume "ret \<in> set rets"
    with range have "unat (u32 (SecondsPerPoint ret)) = nat (SecondsPerPoint ret)"
      and "0 < SecondsPerPoint ret" by (simp_all add: unat_u32)
    then show "u32 (SecondsPerPoint ret) \<noteq> 0" by (auto simp: unat_eq_zero [symmetric])
  qed
  consider (none) "?res = Inr None" | (some) i ret where "?res = Inr (Some (i, ret))"
    using findLowestValidResForInterval_no_Panic [OF nz, of interval]
  proof (cases ?res)
    case (Inl e)
    with findLowestValidResForInterval_no_Panic [OF nz, of interval e] show ?thesis by simp
  next
    case (Inr found)
    then show ?thesis using that by (cases found) auto
  qed
  then show ?thesis
  proof cases
    case none
    from findLowestValidResForInterval_None [OF none] none show ?thesis
      by (simp add: divides_valid_def)
  next
    case some
    from findLowestValidResForInterval_Some [OF some]
    have i: "i < length rets" and ret: "ret = rets ! i"
      and dv: "Valid ret frm ttl" "interval mod u32 (SecondsPerPoint ret) = 0"
      and top: "\<And>j. j < length rets \<Longrightarrow> i < j \<Longrightarrow> \<not> divides_valid frm ttl interval (rets ! j)"
      by (auto simp: divides_valid_def)
    have mono: "SecondsPerPoint (rets ! j) \<le> SecondsPerPoint ret" if "j \<le> i" for j
      using sorted that i ret sorted_nth_mono [of "map SecondsPerPoint rets" j i] by simp
    have below: "j \<le> i \<and> SecondsPerPoint (rets ! j) \<le> SecondsPerPoint ret"
      if "j < length rets" "Valid (rets ! j) frm ttl"
         "interval mod u32 (SecondsPerPoint (rets ! j)) = 0" for j
    proof -
      have "\<not> i < j" using top [of j] that by (auto simp: divides_valid_def)
      then have "j \<le> i" by simp
      with mono show ?thesis by simp
    qed
    have exact: "u32 (SecondsPerPoint ret) = interval"
      if "exact \<in> set rets" "Valid exact frm ttl" "u32 (SecondsPerPoint exact) = interval"
      for exact
    proof -
      from that(1) obtain j where j: "j < length rets" "exact = rets ! j"
        by (auto simp: in_set_conv_nth)
      have "interval mod u32 (SecondsPerPoint (rets ! j)) = 0" using that(3) j by auto
      with below [of j] j that(2) have le: "SecondsPerPoint exact \<le> SecondsPerPoint ret" by simp
      have "ret \<in> set rets" using i ret by simp
      with range have r: "unat (u32 (SecondsPerPoint ret)) = nat (SecondsPerPoint ret)"
        "0 < SecondsPerPoint ret" by (simp_all add: unat_u32)
      from range that(1) have e: "unat (u32 (SecondsPerPoint exact)) = nat (SecondsPerPoint exact)"
        "0 < SecondsPerPoint exact" by (simp_all add: unat_u32)
      from e that(3) have "interval \<noteq> 0" by (auto simp: unat_eq_zero [symmetric])
      with dv(2) have "u32 (SecondsPerPoint ret) \<le> interval" by (rule word_mod_zero_le)
      then have "nat (SecondsPerPoint ret) \<le> nat (SecondsPerPoint exact)"
        using r e that(3) by (simp add: word_le_nat_alt)
      with le r e have "SecondsPerPoint ret = SecondsPerPoint exact" by simp
      with that(3) show ?thesis by simp
    qed
    have q1: "\<forall>j < length rets.
                  Valid (rets ! j) frm ttl \<and> interval mod u32 (SecondsPerPoint (rets ! j)) = 0
                  \<longrightarrow> j \<le> i \<and> SecondsPerPoint (rets ! j) \<le> SecondsPerPoint ret"
    proof (intro allI impI)
      fix j
      assume "j < length rets"
        and "Valid (rets ! j) frm ttl \<and> interval mod u32 (SecondsPerPoint (rets ! j)) = 0"
      then show "j \<le> i \<and> SecondsPerPoint (rets ! j) \<le> SecondsPerPoint ret"
        using below [of j] by simp
    qed
    have q2: "(\<exists>exact \<in> set rets.
                   Valid exact frm ttl \<and> u32 (SecondsPerPoint exact) = interval)
                 \<longrightarrow> u32 (SecondsPerPoint ret) = interval"
    proof
      assume "\<exists>exact \<in> set rets. Valid exact frm ttl \<and> u32 (SecondsPerPoint exact) = interval"
      then obtain x where "x \<in> set rets" "Valid x frm ttl" "u32 (SecondsPerPoint x) = interval"
        by auto
      then show "u32 (SecondsPerPoint ret) = interval" by (rule exact)
    qed
    show ?thesis
      by (intro disjI2 exI [of _ i] exI [of _ ret] conjI; fact)
  qed
qed

theorem findLowestValidResForInterval_coarsest_witness:
  "sorted (map SecondsPerPoint rets3)
   \<and> list_all (\<lambda>ret. 0 < SecondsPerPoint ret \<and> SecondsPerPoint ret < 2 ^ 32) rets3
   \<and> findLowestValidResForInterval rets3 395200 604800 60 = Inr (Some (1, r60))
   \<and> (\<exists>exact \<in> set rets3. Valid exact 395200 604800 \<and> u32 (SecondsPerPoint exact) = 60)
   \<and> u32 (SecondsPerPoint r60) = 60
   \<and> Valid (rets3 ! 0) 395200 604800 \<and> 60 mod u32 (SecondsPerPoint (rets3 ! 0)) = 0
   \<and> SecondsPerPoint (rets3 ! 0) \<le> SecondsPerPoint r60"
proof -
  have s: "sorted (map SecondsPerPoint rets3)"
    by (simp add: rets3_def r10_def r60_def r3600_def)
  have r: "\<forall>ret \<in> set rets3. 0 < SecondsPerPoint ret \<and> SecondsPerPoint ret < 2 ^ 32"
    by (simp add: rets3_def r10_def r60_def r3600_def)
  have a: "findLowestValidResForInterval rets3 395200 604800 60 = Inr (Some (1, r60))"
    by (simp add: findLowestValidResForInterval_def enumerate_eq_zip Valid_def MaxRetention_def
        u32_def rets3_def r10_def r60_def r3600_def)
  have e: "\<exists>exact \<in> set rets3. Valid exact 395200 604800 \<and> u32 (SecondsPerPoint exact) = 60"
    by (simp add: Valid_def MaxRetention_def u32_def rets3_def r10_def r60_def r3600_def)
  have z: "0 < length rets3" "Valid (rets3 ! 0) 395200 604800"
    "60 mod u32 (SecondsPerPoint (rets3 ! 0)) = 0"
    by (simp_all add: Valid_def MaxRetention_def u32_def rets3_def r10_def r60_def r3600_def)
  from findLowestValidResForInterval_coarsest [OF s r, of 395200 604800 60] a e z
  have "u32 (SecondsPerPoint r60) = 60
     \<and> SecondsPerPoint (rets3 ! 0) \<le> SecondsPerPoint r60"
    by auto
  with s r a e z show ?thesis by (simp add: list_all_iff)
qed

subsection \<open>C3, C8, C10: series with a native interval of their own\<close>

text \<open>
  The source notes above \<^verbatim>\<open>planRequests\<close> that the MDP-yes and the soft-limit code
  paths may not take into account that archive 0 may have a different raw interval. The
  three theorems below evaluate the planner on such series.
\<close>

text \<open>
  Claim C3 says that the final output interval of every planned request is a multiple of its
  archive interval, also for a raw archive with a native interval of its own. The plan of an
  MDP-optimizable PN-group whose series has the native interval 7 in a schema of 10 seconds
  reads archive 0 at 7 seconds and emits at 10 seconds, which is no multiple of 7.
\<close>

theorem planRequests_raw_interval_not_multiple:
  "planRequests cat10 1000000 999900 1000000 rpRaw7 10 0 0 = Some (Inr rpRaw7')
   \<and> OutInterval req7 mod ArchInterval req7 \<noteq> 0"
  by (simp add: planRequests_def planner_defs cat10_def r10_def mkreq_def req7_def rpRaw7_def rpRaw7'_def)

text \<open>
  Claim C8 says that a reduction step that returns true lowers the points fetched or raises
  the output interval of a bucket. For a series of native interval 5 in a schema of 10
  seconds, planned at archive 0, \<^verbatim>\<open>reduceResSingles\<close> finds archive 0 again (10 is above
  the output interval 5), returns true and leaves the request as it was.
\<close>

theorem reduceResSingles_raw_no_change:
  "planHighestResSingles cat10 1000000 999900 1000000 0 [mkreq 999900 1000000 5] = (True, [req5])
   \<and> reduceResSingles cat10 1000000 999900 1000000 0 [req5] = (True, [req5])"
  by (simp add: planner_defs cat10_def r10_def mkreq_def req5_def)

text \<open>
  Claim C10 says that the loop of the soft limit ends on every input. With that series and
  a soft limit of 10 points against the 20 that the request fetches, every pass reports
  progress and changes nothing: \<^verbatim>\<open>planRequests\<close> does not return.
\<close>

theorem planRequests_soft_limit_diverges:
  "planRequests cat10 1000000 999900 1000000 rpRaw 800 10 0 = None"
proof -
  have "planRequests_soft cat10 1000000 999900 1000000 10 [] rpRaw' True = None"
  proof (cases "planRequests_soft cat10 1000000 999900 1000000 10 [] rpRaw' True")
    case None
    then show ?thesis .
  next
    case (Some y)
    from soft_rpRaw_aux [OF this] show ?thesis by simp
  qed
  then show ?thesis
    by (simp add: planRequests_def planRequests_steps12_def initial_rpRaw pngroupsByLen_rpRaw')
qed

subsection \<open>C6: the best interval under the cap\<close>

text \<open>
  Claim C6 says that, for every intervals set and bounds, \<^verbatim>\<open>getLowestResFromSetMatching\<close>
  returns the candidate of maximal score among the least common multiples that lie between
  the bounds. A candidate replaces the one held only if its score is above zero, and the
  score of a half without requests is zero: on such a half the candidate 300 lies between
  the bounds 100 and 432, and the function returns 10, the smallest candidate, which does
  not.
\<close>

theorem getLowestResFromSetMatching_counterexample:
  "getLowestResFromSetMatching catXY [] 827200 172800 100 432 [[10, 300]] = Inr 10
   \<and> filter (in_range 100 432) (lcm_candidates [[10, 300]]) = [300]
   \<and> \<not> in_range 100 432 10"
  by (simp add: planner_defs lcm_eval lcm_candidates_def lcm_val_def in_range_def)

text \<open>
  Claim C6 as amended. Take a half that holds at least one request, retentions whose seconds
  per point are positive and within 32 bits, as the data model has them, and an intervals set
  that is not empty. If every least common multiple between the two bounds is supported by
  the half, \<^verbatim>\<open>getLowestResFromSetMatching\<close> returns: among the least common multiples
  of the combinations that lie between the bounds, the one of maximal score, the score of a
  candidate being the sum over the schemas of the number of requests times the seconds per
  point of the archive chosen for the candidate, and of several candidates of maximal score
  the first; and, when no candidate lies between the bounds, the smallest least common
  multiple of all combinations (the largest 32-bit value if there is no combination). If
  some least common multiple between the bounds is not supported, the call panics.
\<close>

theorem getLowestResFromSetMatching_best_supported:
  assumes range: "\<forall>schemaID < length rbr. \<forall>ret \<in> set (cat (u16 schemaID)).
                    0 < SecondsPerPoint ret \<and> SecondsPerPoint ret < 2 ^ 32"
    and data: "HasData rbr"
    and ne: "intervalsSet \<noteq> []"
  shows "((\<forall>c \<in> set (filter (in_range minI maxI) (lcm_candidates intervalsSet)).
             supported cat rbr frm ttl c)
          \<longrightarrow> (\<exists>r. getLowestResFromSetMatching cat rbr frm ttl minI maxI intervalsSet = Inr r
                \<and> (filter (in_range minI maxI) (lcm_candidates intervalsSet) \<noteq> [] \<longrightarrow>
                     (\<exists>k < length (filter (in_range minI maxI) (lcm_candidates intervalsSet)).
                        r = filter (in_range minI maxI) (lcm_candidates intervalsSet) ! k
                        \<and> (\<forall>j < length (filter (in_range minI maxI) (lcm_candidates intervalsSet)).
                              score_spec cat rbr frm ttl
                                (filter (in_range minI maxI) (lcm_candidates intervalsSet) ! j)
                              \<le> score_spec cat rbr frm ttl r)
                        \<and> (\<forall>j < k.
                              score_spec cat rbr frm ttl
                                (filter (in_range minI maxI) (lcm_candidates intervalsSet) ! j)
                              < score_spec cat rbr frm ttl r)))
                \<and> (filter (in_range minI maxI) (lcm_candidates intervalsSet) = [] \<longrightarrow>
                     (\<forall>c \<in> set (lcm_candidates intervalsSet). r \<le> c)
                     \<and> (r \<in> set (lcm_candidates intervalsSet)
                          \<or> (lcm_candidates intervalsSet = [] \<and> r = - 1)))))
       \<and> (\<not> (\<forall>c \<in> set (filter (in_range minI maxI) (lcm_candidates intervalsSet)).
                supported cat rbr frm ttl c)
          \<longrightarrow> getLowestResFromSetMatching cat rbr frm ttl minI maxI intervalsSet = Inl Panic)"
proof (intro conjI impI)
  let ?inr = "filter (in_range minI maxI) (lcm_candidates intervalsSet)"
  let ?combos = "AllCombinationsUint32 intervalsSet"
  assume sup: "\<forall>c \<in> set ?inr. supported cat rbr frm ttl c"
  have nz: "\<forall>ret \<in> set (cat (u16 schemaID)). Valid ret frm ttl \<longrightarrow> u32 (SecondsPerPoint ret) \<noteq> 0"
    if "schemaID < length rbr" for schemaID
  proof (intro ballI impI)
    fix ret assume "ret \<in> set (cat (u16 schemaID))"
    with range that have "unat (u32 (SecondsPerPoint ret)) = nat (SecondsPerPoint ret)"
      and "0 < SecondsPerPoint ret" by (simp_all add: unat_u32)
    then show "u32 (SecondsPerPoint ret) \<noteq> 0" by (auto simp: unat_eq_zero [symmetric])
  qed
  have scores: "\<forall>c \<in> set (filter (in_range minI maxI) (map lcm_val ?combos)).
      \<exists>s. score_loop cat (enumerate 0 rbr) frm ttl c 0 = Inr s"
  proof
    fix c assume "c \<in> set (filter (in_range minI maxI) (map lcm_val ?combos))"
    then have "c \<in> set ?inr" by (simp add: lcm_candidates_def)
    with sup have s: "supported cat rbr frm ttl c" by blast
    have "\<forall>(schemaID, reqs) \<in> set (enumerate 0 rbr). reqs \<noteq> []
      \<longrightarrow> (\<exists>i ret. findLowestValidResForInterval (cat (u16 schemaID)) frm ttl c
                      = Inr (Some (i, ret)))"
    proof (intro ballI, clarify)
      fix schemaID reqs
      assume "(schemaID, reqs) \<in> set (enumerate 0 rbr)" and "reqs \<noteq> []"
      then have k: "schemaID < length rbr" "rbr ! schemaID \<noteq> []"
        by (auto simp: in_set_enumerate_eq)
      with s have "\<exists>ret \<in> set (cat (u16 schemaID)). divides_valid frm ttl c ret"
        by (simp add: supported_def)
      from findLowestValidResForInterval_total [OF this nz [OF k(1)]]
      show "\<exists>i ret. findLowestValidResForInterval (cat (u16 schemaID)) frm ttl c
                      = Inr (Some (i, ret))" .
    qed
    then show "\<exists>s. score_loop cat (enumerate 0 rbr) frm ttl c 0 = Inr s"
      by (rule score_loop_total)
  qed
  from getLowestRes_loop_total [OF AllCombinationsUint32_nonempty [OF ne] scores]
  obtain res where
    "getLowestRes_loop cat rbr frm ttl minI maxI ?combos (0, - 1, 0) = Inr res" by blast
  then obtain r where
    r: "getLowestResFromSetMatching cat rbr frm ttl minI maxI intervalsSet = Inr r"
    by (cases res) (auto simp: getLowestResFromSetMatching_def)
  have pos: "\<forall>schemaID < length rbr. \<forall>ret \<in> set (cat (u16 schemaID)). 0 < SecondsPerPoint ret"
    using range by blast
  note spec = getLowestResFromSetMatching_returned [OF r pos data]
  show "\<exists>r. getLowestResFromSetMatching cat rbr frm ttl minI maxI intervalsSet = Inr r
                \<and> (?inr \<noteq> [] \<longrightarrow>
                     (\<exists>k < length ?inr.
                        r = ?inr ! k
                        \<and> (\<forall>j < length ?inr.
                              score_spec cat rbr frm ttl (?inr ! j) \<le> score_spec cat rbr frm ttl r)
                        \<and> (\<forall>j < k.
                              score_spec cat rbr frm ttl (?inr ! j) < score_spec cat rbr frm ttl r)))
                \<and> (?inr = [] \<longrightarrow>
                     (\<forall>c \<in> set (lcm_candidates intervalsSet). r \<le> c)
                     \<and> (r \<in> set (lcm_candidates intervalsSet)
                          \<or> (lcm_candidates intervalsSet = [] \<and> r = - 1)))"
    by (rule exI [of _ r], rule conjI [OF r spec])
next
  let ?inr = "filter (in_range minI maxI) (lcm_candidates intervalsSet)"
  let ?combos = "AllCombinationsUint32 intervalsSet"
  assume "\<not> (\<forall>c \<in> set ?inr. supported cat rbr frm ttl c)"
  then obtain c schemaID where c: "c \<in> set ?inr"
    and k: "schemaID < length rbr" "rbr ! schemaID \<noteq> []"
    and none: "\<forall>ret \<in> set (cat (u16 schemaID)). \<not> divides_valid frm ttl c ret"
    by (auto simp: supported_def)
  have nofind: "\<forall>i ret. findLowestValidResForInterval (cat (u16 schemaID)) frm ttl c
      \<noteq> Inr (Some (i, ret))"
  proof (intro allI notI)
    fix i ret
    assume "findLowestValidResForInterval (cat (u16 schemaID)) frm ttl c = Inr (Some (i, ret))"
    from findLowestValidResForInterval_Some [OF this]
    have "ret \<in> set (cat (u16 schemaID))" "divides_valid frm ttl c ret" by auto
    with none show False by blast
  qed
  from k have "(schemaID, rbr ! schemaID) \<in> set (enumerate 0 rbr)"
    by (simp add: in_set_enumerate_eq)
  from score_loop_fails [where cat = cat and schemaID = schemaID and s = 0, OF this k(2) nofind]
  obtain e where
    e: "score_loop cat (enumerate 0 rbr) frm ttl c 0 = Inl e" ..
  from c have "c \<in> set (filter (in_range minI maxI) (map lcm_val ?combos))"
    by (simp add: lcm_candidates_def)
  from getLowestRes_loop_fails [OF this e, of "(0, - 1, 0)"] obtain e' where
    l: "getLowestRes_loop cat rbr frm ttl minI maxI ?combos (0, - 1, 0) = Inl e'" ..
  from getLowestRes_loop_Inl [OF l] l
  show "getLowestResFromSetMatching cat rbr frm ttl minI maxI intervalsSet = Inl Panic"
    by (simp add: getLowestResFromSetMatching_def)
qed

theorem getLowestResFromSetMatching_best_supported_witness:
  "getLowestResFromSetMatching catXY rbrXY 827200 172800 0 432 [[10, 300], [10, 240]] = Inr 300
   \<and> HasData rbrXY
   \<and> filter (in_range 0 432) (lcm_candidates [[10, 300], [10, 240]]) = [10, 240, 300]
   \<and> list_all (supported catXY rbrXY 827200 172800) [10, 240, 300]
   \<and> score_spec catXY rbrXY 827200 172800 240 \<le> score_spec catXY rbrXY 827200 172800 300
   \<and> score_spec catXY rbrXY 827200 172800 10 \<le> score_spec catXY rbrXY 827200 172800 300"
proof -
  have range: "\<forall>schemaID < length rbrXY. \<forall>ret \<in> set (catXY (u16 schemaID)).
      0 < SecondsPerPoint ret \<and> SecondsPerPoint ret < 2 ^ 32"
    by (simp add: exampleXY_defs u16_def)
  have data: "HasData rbrXY"
    by (simp add: HasData_def rbrXY_def)
  have ne: "[[10, 300], [10, 240 :: u32]] \<noteq> []" by simp
  have d: "divides_valid 827200 172800 10 r10" "divides_valid 827200 172800 240 r10"
    "divides_valid 827200 172800 300 r10"
    by (simp_all add: divides_valid_def Valid_def MaxRetention_def u32_def r10_def)
  have m: "r10 \<in> set (catXY k)" for k by (simp add: catXY_def)
  have "supported catXY rbrXY 827200 172800 c" if "divides_valid 827200 172800 c r10" for c
    unfolding supported_def using that m by blast
  with d have sup: "list_all (supported catXY rbrXY 827200 172800) [10, 240, 300]"
    by simp
  then have sup': "\<forall>c \<in> set (filter (in_range 0 432) (lcm_candidates [[10, 300], [10, 240]])).
      supported catXY rbrXY 827200 172800 c"
    unfolding candidates_XY by (simp add: list_all_iff)
  from getLowestResFromSetMatching_best_supported [OF range data ne, THEN conjunct1, THEN mp, OF sup']
  obtain r where
    r: "getLowestResFromSetMatching catXY rbrXY 827200 172800 0 432 [[10, 300], [10, 240]] = Inr r"
    and best: "\<forall>j < length [10, 240, 300 :: u32].
          score_spec catXY rbrXY 827200 172800 ([10, 240, 300] ! j)
          \<le> score_spec catXY rbrXY 827200 172800 r"
    unfolding candidates_XY by auto
  from r getLowestRes_XY have r300: "r = 300" by simp
  from best [rule_format, of 0] best [rule_format, of 1] r300
  have "score_spec catXY rbrXY 827200 172800 10 \<le> score_spec catXY rbrXY 827200 172800 300"
    "score_spec catXY rbrXY 827200 172800 240 \<le> score_spec catXY rbrXY 827200 172800 300"
    by simp_all
  with getLowestRes_XY data candidates_XY sup show ?thesis by simp
qed

subsection \<open>C1: the retention chosen for a planned request\<close>

text \<open>
  Claim C1 says that on every plan that \<^verbatim>\<open>planRequests\<close> returns, every chosen retention
  is valid for the window and the time to live \<open>now - from\<close>, and that the plan fails as
  unsatisfiable when a request has no valid retention. The request below has a single
  retention, ready but kept for a shorter time than the window reaches back:
  \<^verbatim>\<open>findHighestResRet\<close> falls back to it, and the plan succeeds. It succeeds likewise
  when the request is an MDP-optimizable single, whose planner looks at readiness only, and
  when it is in the half of a PN-group that is not MDP-optimizable.
\<close>

theorem chosen_retention_not_valid_counterexample:
  "planRequests cat10 1000000 0 1000000 rpOld 800 0 0 = Some (Inr rpOld')
   \<and> cat10 0 = [r10] \<and> \<not> Valid r10 0 (1000000 - 0)
   \<and> planRequests cat10 1000000 0 1000000 rpOldYes 800 0 0 = Some (Inr rpOldYes')
   \<and> planRequests cat10 1000000 0 1000000 rpOldGroup 800 0 0 = Some (Inr rpOldGroup')"
  by (simp add: planRequests_def planner_defs lcm_eval cat10_def r10_def mkreq_def rpOld_def
      rpOld'_def rpOldYes_def rpOldYes'_def rpOldGroup_def rpOldGroup'_def reqOld_def)

text \<open>
  Claim C1 as amended. On every plan that \<^verbatim>\<open>planRequests\<close> returns, the retention
  chosen for every request is ready for the start of the window (its ready timestamp is not
  after \<open>from\<close>). It is valid for the window and the time to live \<open>now - from\<close> for the
  MDP-optimizable requests of the PN-groups; for the requests that are not MDP-optimizable,
  of the PN-groups and of the singles, it is valid unless no retention of the schema is.
  If the bundle cannot be satisfied, that is, if the schema of some request has no retention
  that is ready or, for an MDP-optimizable request of a PN-group, none that is valid,
  \<^verbatim>\<open>planRequests\<close> returns the error of unsatisfiability; the only other outcome is
  a panic, which needs a PN-group with MDP-optimizable requests.
\<close>

theorem planRequests_chosen_ready_or_unsatisfiable:
  "(planRequests cat now frm to reqs planMDP mpprSoft mpprHard = Some (Inr rp')
      \<longrightarrow> plan_ready cat frm rp' \<and> plan_valid_where_possible cat frm (now - frm) rp'
          \<and> plan_satisfiable cat frm (now - frm) reqs)
   \<and> (\<not> plan_satisfiable cat frm (now - frm) reqs
      \<longrightarrow> planRequests cat now frm to reqs planMDP mpprSoft mpprHard = Some (Inl errUnSatisfiable)
          \<or> (planRequests cat now frm to reqs planMDP mpprSoft mpprHard = Some (Inl Panic)
               \<and> (\<exists>(groupID, gd) \<in> set (pngroups reqs). HasData (mdpyes gd))))"
proof (intro conjI impI)
  assume run: "planRequests cat now frm to reqs planMDP mpprSoft mpprHard = Some (Inr rp')"
  from planRequests_result [OF run] show "plan_ready cat frm rp'" by simp
  from run show "plan_valid_where_possible cat frm (now - frm) rp'" by (rule planRequests_valid)
  from run show "plan_satisfiable cat frm (now - frm) reqs" by (rule planRequests_satisfiable)
next
  assume "\<not> plan_satisfiable cat frm (now - frm) reqs"
  then show "planRequests cat now frm to reqs planMDP mpprSoft mpprHard = Some (Inl errUnSatisfiable)
          \<or> (planRequests cat now frm to reqs planMDP mpprSoft mpprHard = Some (Inl Panic)
               \<and> (\<exists>(groupID, gd) \<in> set (pngroups reqs). HasData (mdpyes gd)))"
    by (rule planRequests_unsatisfiable)
qed

theorem planRequests_chosen_ready_or_unsatisfiable_witness:
  "planRequests cat10 1000000 0 1000000 rpOld 800 0 0 = Some (Inr rpOld')
   \<and> plan_ready cat10 0 rpOld' \<and> plan_valid_where_possible cat10 0 (1000000 - 0) rpOld'
   \<and> plan_satisfiable cat10 0 (1000000 - 0) rpOld
   \<and> \<not> plan_satisfiable catNotReady 0 (1000000 - 0) rpOld
   \<and> planRequests catNotReady 1000000 0 1000000 rpOld 800 0 0 = Some (Inl errUnSatisfiable)
   \<and> \<not> plan_satisfiable catNotReady 1000100 (1000000 - 1000100) rpLateGroup
   \<and> planRequests catNotReady 1000000 1000100 1000200 rpLateGroup 0 0 0 = Some (Inl Panic)"
proof -
  have a: "planRequests cat10 1000000 0 1000000 rpOld 800 0 0 = Some (Inr rpOld')"
    by (simp add: planRequests_def planner_defs cat10_def r10_def mkreq_def rpOld_def rpOld'_def)
  with planRequests_chosen_ready_or_unsatisfiable [of cat10 1000000 0 1000000 rpOld 800 0 0 rpOld']
  have b: "plan_ready cat10 0 rpOld' \<and> plan_valid_where_possible cat10 0 (1000000 - 0) rpOld'
      \<and> plan_satisfiable cat10 0 (1000000 - 0) rpOld"
    by simp
  have c: "\<not> plan_satisfiable catNotReady 0 (1000000 - 0) rpOld"
    by (simp add: plan_satisfiable_def plan_has_ready_def gd_has_ready_def has_ready_def
        rpOld_def catNotReady_def rNotReady_def mkreq_def)
  have d: "pngroups rpOld = []" by (simp add: rpOld_def)
  from planRequests_chosen_ready_or_unsatisfiable [of catNotReady 1000000 0 1000000 rpOld 800 0 0]
    c d
  have e: "planRequests catNotReady 1000000 0 1000000 rpOld 800 0 0 = Some (Inl errUnSatisfiable)"
    by simp
  have f: "\<not> plan_satisfiable catNotReady 1000100 (1000000 - 1000100) rpLateGroup"
    by (simp add: plan_satisfiable_def plan_has_ready_def gd_has_ready_def has_ready_def
        rpLateGroup_def catNotReady_def rNotReady_def mkreq_def)
  have g: "planRequests catNotReady 1000000 1000100 1000200 rpLateGroup 0 0 0 = Some (Inl Panic)"
    by (simp add: planRequests_def planRequests_steps12_def planRequests_initial_def
        planRequests_pngroup_def planLowestResForMDPMulti_def HasData_def rpLateGroup_def)
  from a b c e f g show ?thesis by simp
qed

subsection \<open>C2: one output interval in each half of a PN-group\<close>

text \<open>
  Claim C2 says that all requests of a PN-group, in both of its halves, end the planning call
  with the same output interval. The two halves are planned apart, the MDP-optimizable one to
  the coarsest interval under the cap and the other one to the finest: the group below ends
  with 300 seconds in one half and 10 seconds in the other.
\<close>

theorem pngroup_halves_differ_counterexample:
  "planRequests catXY 1000000 827200 1000000 rpMixed 800 0 0 = Some (Inr rpMixed')
   \<and> pngroups rpMixed' = [(7, \<lparr>mdpyes = [[reqYes]], mdpno = [[reqNo]]\<rparr>)]
   \<and> OutInterval reqYes = 300 \<and> OutInterval reqNo = 10"
  by (simp add: planRequests_def planner_defs lcm_eval exampleXY_defs rpMixed_def rpMixed'_def
      reqYes_def reqNo_def)

text \<open>
  Claim C2 as amended. On every plan that \<^verbatim>\<open>planRequests\<close> returns, in every PN-group
  the requests of the MDP-optimizable half share one output interval, and the requests of the
  other half share one output interval.
\<close>

theorem planRequests_half_same_out:
  "planRequests cat now frm to reqs planMDP mpprSoft mpprHard = Some (Inr rp')
     \<longrightarrow> (\<forall>(groupID, gd) \<in> set (pngroups rp').
            (\<exists>interval. \<forall>reqs \<in> set (mdpyes gd). \<forall>req \<in> set reqs. OutInterval req = interval)
          \<and> (\<exists>interval. \<forall>reqs \<in> set (mdpno gd). \<forall>req \<in> set reqs. OutInterval req = interval))"
  using planRequests_result [of cat now frm to reqs planMDP mpprSoft mpprHard rp']
  by (simp add: groups_same_out_def same_out_def)

theorem planRequests_half_same_out_witness:
  "planRequests catXY 1000000 827200 1000000 rpXY 800 0 0 = Some (Inr rpXY')
   \<and> pngroups rpXY' = [(7, \<lparr>mdpyes = [[reqYes], [reqNo\<lparr>OutInterval := 300\<rparr>]], mdpno = []\<rparr>)]
   \<and> (\<exists>interval. \<forall>reqs \<in> set [[reqYes], [reqNo\<lparr>OutInterval := 300\<rparr>]].
                     \<forall>req \<in> set reqs. OutInterval req = interval)"
proof -
  have p: "planRequests catXY 1000000 827200 1000000 rpXY 800 0 0 = Some (Inr rpXY')"
    by (simp add: planRequests_def planner_defs lcm_eval exampleXY_defs rpXY_def rpXY'_def
        reqYes_def reqNo_def)
  have g: "pngroups rpXY' = [(7, \<lparr>mdpyes = [[reqYes], [reqNo\<lparr>OutInterval := 300\<rparr>]], mdpno = []\<rparr>)]"
    by (simp add: rpXY'_def)
  from planRequests_half_same_out [of catXY 1000000 827200 1000000 rpXY 800 0 0 rpXY'] p
  have "\<exists>interval. \<forall>reqs \<in> set [[reqYes], [reqNo\<lparr>OutInterval := 300\<rparr>]].
                     \<forall>req \<in> set reqs. OutInterval req = interval"
    unfolding g by simp
  with p g show ?thesis by blast
qed

subsection \<open>C4: the plan of MDP-optimizable requests\<close>




subsection \<open>C9: a window that starts after now\<close>




end
